theory Spec2Isabelle
  imports Complex_Main "HOL-Library.Multiset" "HOL-Library.AList"
begin

section \<open>Data model\<close>

text \<open>
  Python floats are idealised as real numbers throughout (no rounding, no overflow, no NaN),
  and Python integers are \<open>int\<close>. Exceptions are values: every function that can raise
  returns \<open>py_error + 'a\<close>, with \<open>Inl\<close> the exception that escapes.
\<close>

datatype py_error =
  ValueError | ZeroDivisionError | KeyError | StopIteration | NodeNotFound | NetworkXNoPath

text \<open>
  Modelled from the spec: the module \<open>data\<close> (classes \<open>IoTTask\<close> and
  \<open>ResourceRequest\<close>) is imported by \<open>agents.py\<close> and \<open>auction.py\<close> but is not among
  the sources. The fields are the ones the constructor calls and attribute reads of
  \<open>agents.py\<close> use; tasks are compared by value.
\<close>

record IoTTask =
  task_id :: string
  cpu :: real
  memory :: real
  deadline :: real
  data_size :: real
  priority :: int

record ResourceRequest =
  device_id :: int
  task :: IoTTask
  bid_value :: real

text \<open>\<open>class Agent\<close>: the field \<open>self.id\<close>.\<close>

record Agent =
  agent_id :: int

record IoTDevice = Agent +
  dev_type :: string
  energy_budget :: real
  pending_tasks :: "IoTTask list"

text \<open>The dictionaries with the two keys \<open>"cpu"\<close> and \<open>"memory"\<close>.\<close>

record resource_dict =
  of_cpu :: real
  of_memory :: real

record EdgeNode = Agent +
  capacity :: resource_dict
  available :: resource_dict
  base_price :: resource_dict
  energy_price :: real
  power_per_cpu :: real

text \<open>\<open>EdgeNode.__init__\<close>, with the two random draws for the capacity as parameters.\<close>

definition new_EdgeNode :: "int \<Rightarrow> real \<Rightarrow> real \<Rightarrow> EdgeNode" where
  "new_EdgeNode i cap_cpu cap_memory =
     \<lparr>agent_id = i,
      capacity = \<lparr>of_cpu = cap_cpu, of_memory = cap_memory\<rparr>,
      available = \<lparr>of_cpu = cap_cpu, of_memory = cap_memory\<rparr>,
      base_price = \<lparr>of_cpu = 2 / 10, of_memory = 5 / 100\<rparr>,
      energy_price = 1 / 100,
      power_per_cpu = 2\<rparr>"

text \<open>\<open>IoTDevice.__init__\<close>.\<close>

definition new_IoTDevice :: "int \<Rightarrow> string \<Rightarrow> IoTDevice" where
  "new_IoTDevice i ty =
     \<lparr>agent_id = i, dev_type = ty, energy_budget = 100, pending_tasks = []\<rparr>"

section \<open>The topology (networkx)\<close>

text \<open>
  The library \<open>networkx\<close> is not part of the repository. An undirected weighted
  \<open>nx.Graph\<close> is modelled by its node list and its edge list; an edge is found in either
  direction, and \<open>add_edge\<close> also adds its end points as nodes.
\<close>

record Graph =
  g_nodes :: "int list"
  g_edges :: "(int \<times> int \<times> real) list"

definition edge_weight :: "Graph \<Rightarrow> int \<Rightarrow> int \<Rightarrow> real option" where
  "edge_weight G u v =
     map_option (\<lambda>(a, b, w). w)
       (find (\<lambda>(a, b, w). (a = u \<and> b = v) \<or> (a = v \<and> b = u)) (g_edges G))"

definition has_edge :: "Graph \<Rightarrow> int \<Rightarrow> int \<Rightarrow> bool" where
  "has_edge G u v = (edge_weight G u v \<noteq> None)"

definition node_list :: "Graph \<Rightarrow> int list" where
  "node_list G = remdups (g_nodes G @ concat (map (\<lambda>(a, b, w). [a, b]) (g_edges G)))"

definition has_node :: "Graph \<Rightarrow> int \<Rightarrow> bool" where
  "has_node G u = (u \<in> set (node_list G))"

text \<open>The directed arcs of the graph: both directions of every edge.\<close>

definition arcs :: "Graph \<Rightarrow> (int \<times> int \<times> real) list" where
  "arcs G =
     concat (map (\<lambda>a. concat (map (\<lambda>b.
       (case edge_weight G a b of None \<Rightarrow> [] | Some w \<Rightarrow> [(a, b, w)])) (node_list G)))
       (node_list G))"

text \<open>
  \<open>nx.shortest_path_length(G, source, target, weight='weight')\<close>: the length of a
  shortest weighted path, \<open>NodeNotFound\<close> when the source is not a node of the graph and
  \<open>NetworkXNoPath\<close> when the target is not reached from the source (a target that is not a
  node of the graph is never reached). The distances are computed by rounds of edge
  relaxation from the source (Bellman-Ford), one round per arc.
\<close>

fun relax :: "(int \<Rightarrow> real option) \<Rightarrow> (int \<times> int \<times> real) \<Rightarrow> (int \<Rightarrow> real option)" where
  "relax d (a, b, w) =
     (case d a of
        None \<Rightarrow> d
      | Some da \<Rightarrow>
          (case d b of
             None \<Rightarrow> d(b \<mapsto> da + w)
           | Some db \<Rightarrow> if da + w < db then d(b \<mapsto> da + w) else d))"

definition relax_all :: "Graph \<Rightarrow> (int \<Rightarrow> real option) \<Rightarrow> (int \<Rightarrow> real option)" where
  "relax_all G d = foldl relax d (arcs G)"

definition distances :: "Graph \<Rightarrow> int \<Rightarrow> (int \<Rightarrow> real option)" where
  "distances G s = ((relax_all G) ^^ (length (arcs G))) (Map.empty(s \<mapsto> 0))"

definition shortest_path_length :: "Graph \<Rightarrow> int \<Rightarrow> int \<Rightarrow> py_error + real" where
  "shortest_path_length G s t =
     (if \<not> has_node G s then Inl NodeNotFound
      else case distances G s t of None \<Rightarrow> Inl NetworkXNoPath | Some d \<Rightarrow> Inr d)"

section \<open>Consumers: \<open>IoTDevice\<close>\<close>

text \<open>
  \<open>IoTDevice.generate_task\<close> draws a task at random and appends it to the pending
  tasks. The drawn task is a parameter of the model.
\<close>

definition generate_task :: "IoTDevice \<Rightarrow> IoTTask \<Rightarrow> IoTDevice" where
  "generate_task dev t = dev\<lparr>pending_tasks := pending_tasks dev @ [t]\<rparr>"

text \<open>
  \<open>IoTDevice.utility_for_task\<close>. The division by \<open>task.deadline\<close> raises
  \<open>ZeroDivisionError\<close> when the deadline is zero.
\<close>

definition utility_for_task :: "IoTTask \<Rightarrow> real \<Rightarrow> real \<Rightarrow> py_error + real" where
  "utility_for_task t expected_completion energy_cost =
     (if deadline t = 0 then Inl ZeroDivisionError
      else
        let time_penalty = exp (- expected_completion / deadline t);
            base = real_of_int (priority t) * (cpu t + memory t)
        in Inr (base * time_penalty - energy_cost))"

text \<open>
  The generator of \<open>build_requests\<close>: the weights of the direct edges between the
  device and the providers, in provider order.
\<close>

definition direct_latencies :: "Graph \<Rightarrow> int \<Rightarrow> EdgeNode list \<Rightarrow> real list" where
  "direct_latencies G i providers =
     map (\<lambda>p. the (edge_weight G i (agent_id p)))
       (filter (\<lambda>p. has_edge G i (agent_id p)) providers)"

text \<open>Python's \<open>min\<close> over a generator: \<open>ValueError\<close> when it yields nothing.\<close>

definition py_min :: "real list \<Rightarrow> py_error + real" where
  "py_min xs = (case xs of [] \<Rightarrow> Inl ValueError | y # ys \<Rightarrow> Inr (fold min ys y))"

text \<open>The body of the loop of \<open>build_requests\<close>, for one pending task.\<close>

definition build_request ::
  "int \<Rightarrow> Graph \<Rightarrow> EdgeNode list \<Rightarrow> IoTTask \<Rightarrow> py_error + ResourceRequest" where
  "build_request i G providers t =
     (case py_min (direct_latencies G i providers) of
        Inl e \<Rightarrow> Inl e
      | Inr best_latency \<Rightarrow>
          let expected_completion = best_latency + cpu t / 10;
              energy_cost = best_latency * (1 / 10)
          in (case utility_for_task t expected_completion energy_cost of
                Inl e \<Rightarrow> Inl e
              | Inr utility \<Rightarrow> Inr \<lparr>device_id = i, task = t, bid_value = utility\<rparr>))"

fun build_requests_loop ::
  "int \<Rightarrow> Graph \<Rightarrow> EdgeNode list \<Rightarrow> IoTTask list \<Rightarrow> py_error + ResourceRequest list" where
  "build_requests_loop i G providers [] = Inr []"
| "build_requests_loop i G providers (t # ts) =
     (case build_request i G providers t of
        Inl e \<Rightarrow> Inl e
      | Inr r \<Rightarrow>
          (case build_requests_loop i G providers ts of
             Inl e \<Rightarrow> Inl e
           | Inr rs \<Rightarrow> Inr (r # rs)))"

definition build_requests ::
  "IoTDevice \<Rightarrow> Graph \<Rightarrow> EdgeNode list \<Rightarrow> py_error + ResourceRequest list" where
  "build_requests dev G providers =
     build_requests_loop (agent_id dev) G providers (pending_tasks dev)"

section \<open>Providers: \<open>EdgeNode\<close>\<close>

definition cost_for_request :: "EdgeNode \<Rightarrow> ResourceRequest \<Rightarrow> Graph \<Rightarrow> py_error + real option" where
  "cost_for_request p req G =
     (let c = cpu (task req); m = memory (task req) in
      if c > of_cpu (available p) \<or> m > of_memory (available p) then Inr None
      else if of_cpu (capacity p) = 0 then Inl ZeroDivisionError
      else
        let cost0 = c * of_cpu (base_price p) + m * of_memory (base_price p);
            load = 1 - of_cpu (available p) / of_cpu (capacity p);
            cost1 = cost0 * (1 + load ^ 2);
            cost2 = cost1 + c * power_per_cpu p * energy_price p
        in if has_edge G (agent_id p) (device_id req)
           then Inr (Some (cost2 + the (edge_weight G (agent_id p) (device_id req)) * (1 / 10)))
           else (case shortest_path_length G (agent_id p) (device_id req) of
                   Inl NetworkXNoPath \<Rightarrow> Inr None
                 | Inl e \<Rightarrow> Inl e
                 | Inr delay \<Rightarrow> Inr (Some (cost2 + delay * (1 / 10)))))"

definition allocate :: "EdgeNode \<Rightarrow> ResourceRequest \<Rightarrow> EdgeNode" where
  "allocate p req =
     p\<lparr>available :=
         \<lparr>of_cpu = of_cpu (available p) - cpu (task req),
          of_memory = of_memory (available p) - memory (task req)\<rparr>\<rparr>"

section \<open>The auctioneer\<close>

text \<open>
  A bid is a provider and its cost. The provider objects are shared with the simulator,
  which mutates the winner: a provider is referred to by its position in the provider list.
\<close>

type_synonym bid = "nat \<times> real"
type_synonym allocation = "ResourceRequest \<times> nat \<times> real"
type_synonym rejection = "ResourceRequest \<times> string"

fun collect_bids ::
  "(nat \<times> EdgeNode) list \<Rightarrow> ResourceRequest \<Rightarrow> Graph \<Rightarrow> py_error + bid list" where
  "collect_bids [] req G = Inr []"
| "collect_bids ((i, p) # ps) req G =
     (case cost_for_request p req G of
        Inl e \<Rightarrow> Inl e
      | Inr None \<Rightarrow> collect_bids ps req G
      | Inr (Some cost) \<Rightarrow>
          (case collect_bids ps req G of
             Inl e \<Rightarrow> Inl e
           | Inr bids \<Rightarrow> Inr ((i, cost) # bids)))"

text \<open>
  The clearing of one request from its bids: \<open>bids.sort(key=lambda x: x[1])\<close> is a
  stable sort by cost.
\<close>

datatype outcome = Allocated allocation | Rejected rejection

definition clear_bids :: "ResourceRequest \<Rightarrow> bid list \<Rightarrow> outcome" where
  "clear_bids req bids =
     (if length bids < 1 then Rejected (req, ''no provider'')
      else
        let sorted_bids = sort_key snd bids;
            winner = fst (sorted_bids ! 0);
            win_cost = snd (sorted_bids ! 0);
            pay_price = (if length sorted_bids > 1 then snd (sorted_bids ! 1) else win_cost)
        in Allocated (req, winner, pay_price))"

fun Auctioneer_run ::
  "ResourceRequest list \<Rightarrow> EdgeNode list \<Rightarrow> Graph \<Rightarrow>
     py_error + (allocation list \<times> rejection list)" where
  "Auctioneer_run [] providers G = Inr ([], [])"
| "Auctioneer_run (req # reqs) providers G =
     (case collect_bids (enumerate 0 providers) req G of
        Inl e \<Rightarrow> Inl e
      | Inr bids \<Rightarrow>
          (case Auctioneer_run reqs providers G of
             Inl e \<Rightarrow> Inl e
           | Inr (allocations, rejections) \<Rightarrow>
               (case clear_bids req bids of
                  Rejected r \<Rightarrow> Inr (allocations, r # rejections)
                | Allocated a \<Rightarrow> Inr (a # allocations, rejections))))"

section \<open>Metrics\<close>

definition jain_index :: "real list \<Rightarrow> real" where
  "jain_index vs =
     (let n = length vs in
      if n = 0 then 1
      else
        let s = sum_list vs;
            sq = sum_list (map (\<lambda>v. v ^ 2) vs)
        in if sq = 0 then 1 else s ^ 2 / (real n * sq))"

section \<open>The simulator: \<open>EdgeComputingSystem\<close>\<close>

record EdgeComputingSystem =
  network :: Graph
  nodes :: "EdgeNode list"
  devices :: "IoTDevice list"

text \<open>
  Step 1 of a round: every device generates one task and contributes a request for each
  of its pending tasks. The random draws are a parameter: \<open>draw k\<close> is the task that the
  device at position \<open>k\<close> generates in this round.
\<close>

fun create_requests ::
  "Graph \<Rightarrow> EdgeNode list \<Rightarrow> (nat \<Rightarrow> IoTTask) \<Rightarrow> nat \<Rightarrow> IoTDevice list \<Rightarrow>
     py_error + (IoTDevice list \<times> ResourceRequest list)" where
  "create_requests G providers draw k [] = Inr ([], [])"
| "create_requests G providers draw k (dev # devs) =
     (let dev' = generate_task dev (draw k) in
      case build_requests dev' G providers of
        Inl e \<Rightarrow> Inl e
      | Inr rs \<Rightarrow>
          (case create_requests G providers draw (Suc k) devs of
             Inl e \<Rightarrow> Inl e
           | Inr (devs', all_requests) \<Rightarrow> Inr (dev' # devs', rs @ all_requests)))"

text \<open>
  Step 3 of a round. The state of the loop over the allocations: the providers and the
  devices (mutated in place by the source), the dictionary \<open>per_device_allocated\<close> (keys
  in insertion order) and the welfare.
\<close>

record apply_state =
  st_nodes :: "EdgeNode list"
  st_devices :: "IoTDevice list"
  per_device_allocated :: "(int \<times> int) list"
  welfare :: real

text \<open>
  \<open>dev = next(d for d in self.devices if d.id == req.device_id)\<close> followed by
  \<open>dev.pending_tasks.remove(req.task)\<close>: the first device with the identifier loses the
  first occurrence of the task.
\<close>

fun remove_pending :: "int \<Rightarrow> IoTTask \<Rightarrow> IoTDevice list \<Rightarrow> py_error + IoTDevice list" where
  "remove_pending i t [] = Inl StopIteration"
| "remove_pending i t (d # ds) =
     (if agent_id d = i then
        (if t \<in> set (pending_tasks d)
         then Inr (d\<lparr>pending_tasks := remove1 t (pending_tasks d)\<rparr> # ds)
         else Inl ValueError)
      else (case remove_pending i t ds of Inl e \<Rightarrow> Inl e | Inr ds' \<Rightarrow> Inr (d # ds')))"

text \<open>The body of the loop \<open>for req, winner, price in allocations\<close>.\<close>

definition apply_allocation :: "apply_state \<Rightarrow> allocation \<Rightarrow> py_error + apply_state" where
  "apply_allocation st a =
     (case a of (req, winner, price) \<Rightarrow>
        let nodes' = (st_nodes st)[winner := allocate (st_nodes st ! winner) req] in
        (case map_of (per_device_allocated st) (device_id req) of
           None \<Rightarrow> Inl KeyError
         | Some n \<Rightarrow>
             let allocated' = AList.update (device_id req) (n + 1) (per_device_allocated st);
                 welfare' = welfare st + (bid_value req - price)
             in (case remove_pending (device_id req) (task req) (st_devices st) of
                   Inl e \<Rightarrow> Inl e
                 | Inr devices' \<Rightarrow>
                     Inr \<lparr>st_nodes = nodes', st_devices = devices',
                          per_device_allocated = allocated', welfare = welfare'\<rparr>)))"

fun apply_allocations :: "apply_state \<Rightarrow> allocation list \<Rightarrow> py_error + apply_state" where
  "apply_allocations st [] = Inr st"
| "apply_allocations st (a # as) =
     (case apply_allocation st a of
        Inl e \<Rightarrow> Inl e
      | Inr st' \<Rightarrow> apply_allocations st' as)"

text \<open>\<open>{d.id: 0 for d in self.devices}\<close>.\<close>

definition init_allocated :: "IoTDevice list \<Rightarrow> (int \<times> int) list" where
  "init_allocated devs = foldl (\<lambda>m d. AList.update (agent_id d) 0 m) [] devs"

text \<open>Step 4 of a round: the metrics.\<close>

fun total_tasks :: "(int \<times> int) list \<Rightarrow> IoTDevice list \<Rightarrow> py_error + int" where
  "total_tasks allocated [] = Inr 0"
| "total_tasks allocated (d # ds) =
     (case map_of allocated (agent_id d) of
        None \<Rightarrow> Inl KeyError
      | Some n \<Rightarrow>
          (case total_tasks allocated ds of
             Inl e \<Rightarrow> Inl e
           | Inr k \<Rightarrow> Inr (int (length (pending_tasks d)) + n + k)))"

record round_metrics =
  social_welfare :: real
  allocation_eff :: real
  fairness :: real

text \<open>One iteration of the main loop of \<open>EdgeComputingSystem.run\<close>.\<close>

definition run_round ::
  "EdgeComputingSystem \<Rightarrow> (nat \<Rightarrow> IoTTask) \<Rightarrow> py_error + (EdgeComputingSystem \<times> round_metrics)" where
  "run_round sys draw =
     (case create_requests (network sys) (nodes sys) draw 0 (devices sys) of
        Inl e \<Rightarrow> Inl e
      | Inr (devs, all_requests) \<Rightarrow>
          (case Auctioneer_run all_requests (nodes sys) (network sys) of
             Inl e \<Rightarrow> Inl e
           | Inr (allocations, rejections) \<Rightarrow>
               (case apply_allocations
                       \<lparr>st_nodes = nodes sys, st_devices = devs,
                        per_device_allocated = init_allocated devs, welfare = 0\<rparr>
                       allocations of
                  Inl e \<Rightarrow> Inl e
                | Inr st \<Rightarrow>
                    (case total_tasks (per_device_allocated st) (st_devices st) of
                       Inl e \<Rightarrow> Inl e
                     | Inr n_tasks \<Rightarrow>
                         let counts = map snd (per_device_allocated st);
                             alloc_eff =
                               (if n_tasks \<noteq> 0 then real_of_int (sum_list counts) / real_of_int n_tasks
                                else 1)
                         in Inr (sys\<lparr>nodes := st_nodes st, devices := st_devices st\<rparr>,
                                 \<lparr>social_welfare = welfare st,
                                  allocation_eff = alloc_eff,
                                  fairness = jain_index (map real_of_int counts)\<rparr>)))))"

text \<open>
  The loop \<open>for _ in range(n_rounds)\<close>, from round \<open>r\<close> on; \<open>draw r k\<close> is the task that
  the device at position \<open>k\<close> generates in round \<open>r\<close>. The result is the final system and
  the metrics of the rounds, in order.
\<close>

fun run_loop ::
  "(nat \<Rightarrow> nat \<Rightarrow> IoTTask) \<Rightarrow> nat \<Rightarrow> nat \<Rightarrow> EdgeComputingSystem \<Rightarrow>
     py_error + (EdgeComputingSystem \<times> round_metrics list)" where
  "run_loop draw r 0 sys = Inr (sys, [])"
| "run_loop draw r (Suc n) sys =
     (case run_round sys (draw r) of
        Inl e \<Rightarrow> Inl e
      | Inr (sys', m) \<Rightarrow>
          (case run_loop draw (Suc r) n sys' of
             Inl e \<Rightarrow> Inl e
           | Inr (sys'', ms) \<Rightarrow> Inr (sys'', m # ms)))"

section \<open>Observations of the auction\<close>

text \<open>
  What an observer sees of the auctioneer's result and of the state of the application
  loop when the declared utilities (\<open>bid_value\<close>) and the welfare are hidden: of a request,
  its device and its task.
\<close>

definition allocation_view :: "allocation \<Rightarrow> int \<times> IoTTask \<times> nat \<times> real" where
  "allocation_view a = (case a of (r, w, p) \<Rightarrow> (device_id r, task r, w, p))"

definition rejection_view :: "rejection \<Rightarrow> int \<times> IoTTask \<times> string" where
  "rejection_view x = (case x of (r, reason) \<Rightarrow> (device_id r, task r, reason))"

definition auction_view ::
  "py_error + (allocation list \<times> rejection list) \<Rightarrow>
     py_error + ((int \<times> IoTTask \<times> nat \<times> real) list \<times> (int \<times> IoTTask \<times> string) list)" where
  "auction_view res =
     (case res of
        Inl e \<Rightarrow> Inl e
      | Inr (al, rj) \<Rightarrow> Inr (map allocation_view al, map rejection_view rj))"

definition state_view ::
  "py_error + apply_state \<Rightarrow> py_error + (EdgeNode list \<times> IoTDevice list \<times> (int \<times> int) list)" where
  "state_view res =
     (case res of
        Inl e \<Rightarrow> Inl e
      | Inr st \<Rightarrow> Inr (st_nodes st, st_devices st, per_device_allocated st))"

section \<open>Connectivity in the topology\<close>

text \<open>
  A path exists between two nodes when a chain of edges leads from one to the other:
  the reflexive transitive closure of the edge relation.
\<close>

definition edge_rel :: "Graph \<Rightarrow> (int \<times> int) set" where
  "edge_rel G = {(a, b). has_edge G a b}"

definition has_path :: "Graph \<Rightarrow> int \<Rightarrow> int \<Rightarrow> bool" where
  "has_path G u v = ((u, v) \<in> (edge_rel G)\<^sup>*)"

text \<open>
  A walk from \<open>u\<close> to \<open>v\<close> is a chain of arcs, each an edge of the graph with its weight; its
  weight is the sum of the weights of its arcs.
\<close>

fun is_walk :: "Graph \<Rightarrow> int \<Rightarrow> (int \<times> int \<times> real) list \<Rightarrow> int \<Rightarrow> bool" where
  "is_walk G u [] v = (u = v)"
| "is_walk G u ((a, b, w) # es) v = (a = u \<and> edge_weight G a b = Some w \<and> is_walk G b es v)"

definition walk_weight :: "(int \<times> int \<times> real) list \<Rightarrow> real" where
  "walk_weight es = sum_list (map (\<lambda>(a, b, w). w) es)"

text \<open>
  A length \<open>d\<close> is the shortest path length from \<open>u\<close> to \<open>v\<close> when some walk from \<open>u\<close> to
  \<open>v\<close> has weight \<open>d\<close> and no walk between them has less.
\<close>

definition is_shortest_path_length :: "Graph \<Rightarrow> int \<Rightarrow> int \<Rightarrow> real \<Rightarrow> bool" where
  "is_shortest_path_length G u v d =
     ((\<exists>es. is_walk G u es v \<and> walk_weight es = d)
      \<and> (\<forall>es. is_walk G u es v \<longrightarrow> d \<le> walk_weight es))"

section \<open>Worked examples\<close>

text \<open>
  Three providers as \<open>EdgeNode.__init__\<close> builds them, a camera task within the ranges of
  \<open>generate_task\<close>, and a device (identifier 3) linked to all three providers.
\<close>

definition ex_task :: IoTTask where
  "ex_task = \<lparr>task_id = ''4f2a9c1e'', cpu = 15 / 2, memory = 12, deadline = 1,
              data_size = 50, priority = 3\<rparr>"

definition ex_graph :: Graph where
  "ex_graph = \<lparr>g_nodes = [0, 1, 2, 3], g_edges = [(0, 1, 3), (3, 0, 2), (3, 1, 1), (3, 2, 3 / 2)]\<rparr>"

definition ex_providers :: "EdgeNode list" where
  "ex_providers = [new_EdgeNode 0 21 33, new_EdgeNode 1 25 40, new_EdgeNode 2 30 50]"

definition ex_request :: ResourceRequest where
  "ex_request = \<lparr>device_id = 3, task = ex_task, bid_value = 7\<rparr>"

text \<open>The state of the application loop before the first allocation is applied.\<close>

definition ex_state :: apply_state where
  "ex_state = \<lparr>st_nodes = ex_providers,
               st_devices = [new_IoTDevice 4 ''sensor'', generate_task (new_IoTDevice 3 ''camera'') ex_task],
               per_device_allocated = [(4, 0), (3, 0)], welfare = 0\<rparr>"

text \<open>
  A provider that has already committed most of its capacity, and one camera device
  linked to it.
\<close>

definition ex_busy_system :: EdgeComputingSystem where
  "ex_busy_system =
     \<lparr>network = \<lparr>g_nodes = [0, 1], g_edges = [(1, 0, 1)]\<rparr>,
      nodes = [(new_EdgeNode 0 21 33)\<lparr>available := \<lparr>of_cpu = 6, of_memory = 9\<rparr>\<rparr>],
      devices = [new_IoTDevice 1 ''camera'']\<rparr>"

text \<open>
  A fresh system as \<open>EdgeComputingSystem.__init__\<close> builds it for one provider and three
  devices: every device is linked to the provider.
\<close>

definition ex_crowded_system :: EdgeComputingSystem where
  "ex_crowded_system =
     \<lparr>network = \<lparr>g_nodes = [0, 1, 2, 3], g_edges = [(1, 0, 1), (2, 0, 1), (3, 0, 1)]\<rparr>,
      nodes = [new_EdgeNode 0 21 33],
      devices = [new_IoTDevice 1 ''camera'', new_IoTDevice 2 ''camera'',
                 new_IoTDevice 3 ''camera'']\<rparr>"

text \<open>The request that the device of \<open>ex_busy_system\<close> builds for \<open>ex_task\<close>.\<close>

definition ex_busy_request :: ResourceRequest where
  "ex_busy_request =
     \<lparr>device_id = 1, task = ex_task, bid_value = 117 / 2 * exp (- (7 / 4)) - 1 / 10\<rparr>"

text \<open>A provider two hops away from the device 4: no direct edge, a path of length 4.\<close>

definition ex_far_graph :: Graph where
  "ex_far_graph = \<lparr>g_nodes = [0, 1, 4], g_edges = [(0, 1, 3), (4, 1, 1)]\<rparr>"

definition ex_far_request :: ResourceRequest where
  "ex_far_request = \<lparr>device_id = 4, task = ex_task, bid_value = 7\<rparr>"

section \<open>Jain's fairness index\<close>

lemma sum_sq_diff:
  "(\<Sum>y\<leftarrow>xs. (x - y) ^ 2) =
     real (length xs) * x ^ 2 - 2 * x * sum_list xs + (\<Sum>y\<leftarrow>xs. y ^ 2)"
  for x :: real
  by (induction xs) (simp_all add: power2_eq_square algebra_simps)

lemma sum_sq_diff_nonneg: "0 \<le> (\<Sum>y\<leftarrow>xs. (x - y) ^ 2)" for x :: real
  by (induction xs) simp_all

lemma sum_sq_diff_zero_iff:
  "(\<Sum>y\<leftarrow>xs. (x - y) ^ 2) = 0 \<longleftrightarrow> (\<forall>y\<in>set xs. y = x)" for x :: real
proof (induction xs)
  case Nil
  show ?case by simp
next
  case (Cons a xs)
  have "(x - a) ^ 2 + (\<Sum>y\<leftarrow>xs. (x - y) ^ 2) = 0 \<longleftrightarrow>
          (x - a) ^ 2 = 0 \<and> (\<Sum>y\<leftarrow>xs. (x - y) ^ 2) = 0"
    using sum_sq_diff_nonneg [of x xs] by (simp add: add_nonneg_eq_0_iff)
  then show ?case using Cons.IH by auto
qed

text \<open>
  The gap of the Cauchy-Schwarz inequality, \<open>n \<cdot> \<Sum>v\<^sup>2 - (\<Sum>v)\<^sup>2\<close>, grows by the squared
  distances of the new entry to the old ones.
\<close>

lemma gap_Cons:
  "real (length (x # xs)) * (\<Sum>y\<leftarrow>x # xs. y ^ 2) - (sum_list (x # xs)) ^ 2 =
     (\<Sum>y\<leftarrow>xs. (x - y) ^ 2) + (real (length xs) * (\<Sum>y\<leftarrow>xs. y ^ 2) - (sum_list xs) ^ 2)"
  for x :: real
proof -
  have "(\<Sum>y\<leftarrow>xs. (x - y) ^ 2) + (real (length xs) * (\<Sum>y\<leftarrow>xs. y ^ 2) - (sum_list xs) ^ 2) =
      (real (length xs) * x ^ 2 - 2 * x * sum_list xs + (\<Sum>y\<leftarrow>xs. y ^ 2))
      + (real (length xs) * (\<Sum>y\<leftarrow>xs. y ^ 2) - (sum_list xs) ^ 2)"
    by (simp only: sum_sq_diff)
  also have "\<dots> = real (length (x # xs)) * (\<Sum>y\<leftarrow>x # xs. y ^ 2) - (sum_list (x # xs)) ^ 2"
    by (simp add: power2_eq_square algebra_simps)
  finally show ?thesis by simp
qed

lemma gap_nonneg:
  "0 \<le> real (length xs) * (\<Sum>y\<leftarrow>xs. y ^ 2) - (sum_list xs) ^ 2" for xs :: "real list"
proof (induction xs)
  case Nil
  show ?case by simp
next
  case (Cons x xs)
  show ?case
    unfolding gap_Cons using Cons.IH sum_sq_diff_nonneg [of x xs] by simp
qed

lemma gap_zero_iff:
  "real (length xs) * (\<Sum>y\<leftarrow>xs. y ^ 2) - (sum_list xs) ^ 2 = 0 \<longleftrightarrow>
     (\<forall>x\<in>set xs. \<forall>y\<in>set xs. x = y)" for xs :: "real list"
proof (induction xs)
  case Nil
  show ?case by simp
next
  case (Cons a xs)
  have "real (length (a # xs)) * (\<Sum>y\<leftarrow>a # xs. y ^ 2) - (sum_list (a # xs)) ^ 2 = 0 \<longleftrightarrow>
      (\<Sum>y\<leftarrow>xs. (a - y) ^ 2) = 0 \<and>
      real (length xs) * (\<Sum>y\<leftarrow>xs. y ^ 2) - (sum_list xs) ^ 2 = 0"
    unfolding gap_Cons using sum_sq_diff_nonneg [of a xs] gap_nonneg [of xs]
    by (simp add: add_nonneg_eq_0_iff)
  then show ?case using Cons.IH by (auto simp: sum_sq_diff_zero_iff)
qed

lemma sum_sq_zero_iff: "(\<Sum>y\<leftarrow>xs. y ^ 2) = 0 \<longleftrightarrow> (\<forall>y\<in>set xs. y = 0)" for xs :: "real list"
  using sum_sq_diff_zero_iff [of 0 xs] by simp

lemma sum_sq_nonneg: "0 \<le> (\<Sum>y\<leftarrow>xs. y ^ 2)" for xs :: "real list"
  using sum_sq_diff_nonneg [of 0 xs] by simp

lemma jain_index_formula:
  "jain_index v =
     (if v = [] \<or> (\<Sum>x\<leftarrow>v. x ^ 2) = 0 then 1
      else (sum_list v) ^ 2 / (real (length v) * (\<Sum>x\<leftarrow>v. x ^ 2)))"
  by (simp add: jain_index_def Let_def)

lemma jain_index_le_1: "jain_index v \<le> 1"
proof (cases "v = [] \<or> (\<Sum>x\<leftarrow>v. x ^ 2) = 0")
  case True
  then show ?thesis by (simp add: jain_index_formula)
next
  case False
  then have pos: "0 < real (length v) * (\<Sum>x\<leftarrow>v. x ^ 2)"
    using sum_sq_nonneg [of v] by (simp add: less_le)
  have "(sum_list v) ^ 2 \<le> real (length v) * (\<Sum>x\<leftarrow>v. x ^ 2)"
    using gap_nonneg [of v] by simp
  then show ?thesis using False pos by (simp add: jain_index_formula)
qed

lemma jain_index_eq_1_iff: "jain_index v = 1 \<longleftrightarrow> (\<forall>x\<in>set v. \<forall>y\<in>set v. x = y)"
proof (cases "v = [] \<or> (\<Sum>x\<leftarrow>v. x ^ 2) = 0")
  case True
  then have "\<forall>x\<in>set v. x = 0" by (auto simp: sum_sq_zero_iff)
  then have "\<forall>x\<in>set v. \<forall>y\<in>set v. x = y" by metis
  moreover have "jain_index v = 1" using True by (simp add: jain_index_formula)
  ultimately show ?thesis by simp
next
  case False
  then have pos: "0 < real (length v) * (\<Sum>x\<leftarrow>v. x ^ 2)"
    using sum_sq_nonneg [of v] by (simp add: less_le)
  have "jain_index v = 1 \<longleftrightarrow> real (length v) * (\<Sum>x\<leftarrow>v. x ^ 2) = (sum_list v) ^ 2"
    using False pos by (simp add: jain_index_formula)
  also have "\<dots> \<longleftrightarrow> real (length v) * (\<Sum>x\<leftarrow>v. x ^ 2) - (sum_list v) ^ 2 = 0"
    by auto
  finally show ?thesis by (simp only: gap_zero_iff)
qed

lemma jain_index_pos:
  assumes "\<forall>x\<in>set v. 0 \<le> x"
  shows "0 < jain_index v"
proof (cases "v = [] \<or> (\<Sum>x\<leftarrow>v. x ^ 2) = 0")
  case True
  then show ?thesis by (simp add: jain_index_formula)
next
  case False
  then have pos: "0 < real (length v) * (\<Sum>x\<leftarrow>v. x ^ 2)"
    using sum_sq_nonneg [of v] by (simp add: less_le)
  from False obtain y where y: "y \<in> set v" "y \<noteq> 0"
    by (auto simp: sum_sq_zero_iff)
  have "0 \<le> sum_list v" using assms by (simp add: sum_list_nonneg)
  moreover have "sum_list v \<noteq> 0"
    using assms y by (auto simp: sum_list_nonneg_eq_0_iff)
  ultimately have "0 < sum_list v" by simp
  then show ?thesis using False pos by (simp add: jain_index_formula)
qed

text \<open>
  C4 (as the claim states it, refuted): the claim says that the index is 1 if and only if
  all nonzero entries are equal. For the counts \<open>[1, 0]\<close> the only nonzero entry is 1, so
  all nonzero entries are equal, yet the index is \<open>1/2\<close>.
\<close>

theorem jain_index_nonzero_equal_counterexample:
  "jain_index [1, 0] = 1 / 2 \<and> set (removeAll 0 [1, 0 :: real]) = {1}"
  by (simp add: jain_index_def)

text \<open>
  C4 (amended): for every vector \<open>v\<close> of non-negative counts, \<open>0 < jain_index v \<le> 1\<close>; the
  index is 1 if and only if all entries of \<open>v\<close> are equal (zero entries included); it is 1
  for the empty vector and when the sum of squares is zero, and
  \<open>(\<Sum>v)\<^sup>2 / (n \<cdot> \<Sum>v\<^sup>2)\<close> otherwise.
\<close>

theorem jain_index_bounds:
  assumes "\<forall>x\<in>set v. 0 \<le> x"
  shows "0 < jain_index v \<and> jain_index v \<le> 1
    \<and> (jain_index v = 1 \<longleftrightarrow> (\<forall>x\<in>set v. \<forall>y\<in>set v. x = y))
    \<and> jain_index v =
        (if v = [] \<or> (\<Sum>x\<leftarrow>v. x ^ 2) = 0 then 1
         else (sum_list v) ^ 2 / (real (length v) * (\<Sum>x\<leftarrow>v. x ^ 2)))"
  using jain_index_pos [OF assms] jain_index_le_1 [of v] jain_index_eq_1_iff [of v]
    jain_index_formula [of v]
  by blast

theorem jain_index_bounds_witness:
  "list_all (\<lambda>x. 0 \<le> x) [1, 1, 2 :: real]
   \<and> 0 < jain_index [1, 1, 2] \<and> jain_index [1, 1, 2] \<le> 1 \<and> jain_index [1, 1, 2] \<noteq> 1
   \<and> jain_index [1, 1, 2] = 8 / 9
   \<and> jain_index [2, 2] = 1 \<and> jain_index [0, 0] = 1 \<and> jain_index [] = 1"
  using jain_index_bounds [of "[1, 1, 2]"] jain_index_bounds [of "[2, 2]"]
    jain_index_bounds [of "[0, 0]"] jain_index_bounds [of "[]"]
  by simp

section \<open>The auctioneer: second-price clearing\<close>

lemma collect_bids_set:
  "collect_bids ips req G = Inr bids \<Longrightarrow>
     set bids = {(i, c). \<exists>p. (i, p) \<in> set ips \<and> cost_for_request p req G = Inr (Some c)}"
proof (induction ips arbitrary: bids)
  case Nil
  then show ?case by simp
next
  case (Cons ip ips)
  obtain i p where ip: "ip = (i, p)" by (cases ip)
  show ?case
  proof (cases "cost_for_request p req G")
    case (Inl e)
    with Cons.prems ip show ?thesis by simp
  next
    case (Inr r)
    show ?thesis
    proof (cases r)
      case None
      with Inr Cons ip show ?thesis by auto
    next
      case (Some c)
      with Inr Cons.prems ip obtain bs where bs: "collect_bids ips req G = Inr bs" "bids = (i, c) # bs"
        by (auto split: sum.splits)
      from Cons.IH [OF bs(1)] bs(2) Inr Some ip show ?thesis by auto
    qed
  qed
qed

lemma collect_bids_enumerate:
  assumes "collect_bids (enumerate 0 providers) req G = Inr bids"
  shows "(i, c) \<in> set bids \<longleftrightarrow>
     i < length providers \<and> cost_for_request (providers ! i) req G = Inr (Some c)"
  using collect_bids_set [OF assms] by (auto simp: in_set_enumerate_eq)

lemma collect_bids_all_refuse:
  "\<forall>ip\<in>set ips. cost_for_request (snd ip) req G = Inr None \<Longrightarrow> collect_bids ips req G = Inr []"
  by (induction ips) auto

lemma clear_bids_Nil: "clear_bids req [] = Rejected (req, ''no provider'')"
  by (simp add: clear_bids_def)

lemma clear_bids_nonempty:
  assumes "bids \<noteq> []"
  shows "clear_bids req bids =
     Allocated (req, fst (hd (sort_key snd bids)),
       (if length bids > 1 then snd (sort_key snd bids ! 1) else snd (hd (sort_key snd bids))))"
proof -
  have "sort_key snd bids \<noteq> []" using assms by (metis length_sort length_0_conv)
  then have "sort_key snd bids ! 0 = hd (sort_key snd bids)" by (simp add: hd_conv_nth)
  moreover have "\<not> length bids < 1" using assms by (cases bids) auto
  ultimately show ?thesis by (simp add: clear_bids_def Let_def)
qed

lemma map_snd_sort_key: "map snd (sort_key snd bids) = sort (map snd bids)"
  for bids :: "('a \<times> 'b::linorder) list"
  by (rule properties_for_sort [symmetric]) (simp_all add: sorted_sort_key)

lemma hd_sort_key_in: "bids \<noteq> [] \<Longrightarrow> hd (sort_key snd bids) \<in> set bids"
  by (metis hd_in_set length_0_conv length_sort set_sort)

lemma hd_sort_key_le:
  assumes "b \<in> set bids"
  shows "snd (hd (sort_key snd bids)) \<le> snd b"
proof -
  let ?s = "sort_key snd bids"
  have ne: "?s \<noteq> []" using assms by (metis empty_iff length_0_conv length_sort list.set(1))
  have "sorted (map snd ?s)" by (rule sorted_sort_key)
  moreover have "b \<in> set ?s" using assms by simp
  ultimately show ?thesis using ne
    by (cases ?s) auto
qed

lemma second_sort_key_ge:
  assumes "length bids > 1"
  shows "snd (hd (sort_key snd bids)) \<le> snd (sort_key snd bids ! 1)"
proof -
  let ?s = "sort_key snd bids"
  have len: "length ?s > 1" using assms by simp
  then have "?s ! 1 \<in> set ?s" by (rule nth_mem)
  then have "?s ! 1 \<in> set bids" by (simp only: set_sort)
  then show ?thesis by (rule hd_sort_key_le)
qed

lemma second_sort_key_sort:
  assumes "length bids > 1"
  shows "snd (sort_key snd bids ! 1) = sort (map snd bids) ! 1"
proof -
  have "sort (map snd bids) ! 1 = map snd (sort_key snd bids) ! 1"
    by (simp only: map_snd_sort_key)
  also have "\<dots> = snd (sort_key snd bids ! 1)" using assms by (simp add: nth_map)
  finally show ?thesis by simp
qed

lemma Auctioneer_run_allocations:
  "Auctioneer_run reqs providers G = Inr (allocations, rejections) \<Longrightarrow>
     set allocations = {a. \<exists>req\<in>set reqs. \<exists>bids.
        collect_bids (enumerate 0 providers) req G = Inr bids \<and> clear_bids req bids = Allocated a}"
proof (induction reqs arbitrary: allocations rejections)
  case Nil
  then show ?case by simp
next
  case (Cons req reqs)
  from Cons.prems obtain bids al rj where
    b: "collect_bids (enumerate 0 providers) req G = Inr bids" and
    r: "Auctioneer_run reqs providers G = Inr (al, rj)"
    by (auto split: sum.splits)
  note IH = Cons.IH [OF r]
  show ?case
  proof (cases "clear_bids req bids")
    case (Allocated a)
    with Cons.prems b r have "allocations = a # al" by simp
    with IH b Allocated show ?thesis by auto
  next
    case (Rejected x)
    with Cons.prems b r have "allocations = al" by simp
    with IH b Rejected show ?thesis by auto
  qed
qed

lemma Auctioneer_run_rejections:
  "Auctioneer_run reqs providers G = Inr (allocations, rejections) \<Longrightarrow>
     set rejections = {a. \<exists>req\<in>set reqs. \<exists>bids.
        collect_bids (enumerate 0 providers) req G = Inr bids \<and> clear_bids req bids = Rejected a}"
proof (induction reqs arbitrary: allocations rejections)
  case Nil
  then show ?case by simp
next
  case (Cons req reqs)
  from Cons.prems obtain bids al rj where
    b: "collect_bids (enumerate 0 providers) req G = Inr bids" and
    r: "Auctioneer_run reqs providers G = Inr (al, rj)"
    by (auto split: sum.splits)
  note IH = Cons.IH [OF r]
  show ?case
  proof (cases "clear_bids req bids")
    case (Allocated a)
    with Cons.prems b r have "rejections = rj" by simp
    with IH b Allocated show ?thesis by auto
  next
    case (Rejected x)
    with Cons.prems b r have "rejections = x # rj" by simp
    with IH b Rejected show ?thesis by auto
  qed
qed

lemma Auctioneer_run_collect:
  "Auctioneer_run reqs providers G = Inr out \<Longrightarrow> req \<in> set reqs \<Longrightarrow>
     \<exists>bids. collect_bids (enumerate 0 providers) req G = Inr bids"
  by (induction reqs arbitrary: out) (auto split: sum.splits)

lemmas ex_defs = ex_task_def ex_graph_def ex_providers_def ex_request_def new_EdgeNode_def

lemma ex_collect_bids:
  "collect_bids (enumerate 0 ex_providers) ex_request ex_graph =
     Inr [(0, 49 / 20), (1, 47 / 20), (2, 12 / 5)]"
  by (simp add: ex_defs enumerate_eq_zip cost_for_request_def has_edge_def edge_weight_def)

lemma ex_Auctioneer_run:
  "Auctioneer_run [ex_request] ex_providers ex_graph = Inr ([(ex_request, 1, 12 / 5)], [])"
  by (simp add: ex_collect_bids clear_bids_def)

text \<open>
  C3: for every request of the batch with at least one bid, the auctioneer emits an
  allocation for it; the winner is a provider whose cost is minimal among all providers
  that bid; the clearing price is the second-lowest cost (the second entry of the sorted
  costs) when there are at least two bids and the winner's own cost when there is one;
  and the price is the same for every reordering of the bids, ties included.
\<close>

theorem second_price_clearing:
  assumes run: "Auctioneer_run reqs providers G = Inr (allocations, rejections)"
    and req: "req \<in> set reqs"
    and bids: "collect_bids (enumerate 0 providers) req G = Inr bids"
    and ne: "bids \<noteq> []"
  shows "\<exists>w c price.
      (req, w, price) \<in> set allocations
      \<and> w < length providers \<and> cost_for_request (providers ! w) req G = Inr (Some c)
      \<and> (\<forall>i c'. i < length providers \<and> cost_for_request (providers ! i) req G = Inr (Some c')
            \<longrightarrow> c \<le> c')
      \<and> price = (if length bids \<ge> 2 then sort (map snd bids) ! 1 else c)
      \<and> (\<forall>bids'. mset bids' = mset bids \<longrightarrow>
            (\<exists>w'. clear_bids req bids' = Allocated (req, w', price)))"
proof -
  let ?s = "sort_key snd bids"
  define w where "w = fst (hd ?s)"
  define c where "c = snd (hd ?s)"
  define price where "price = (if length bids > 1 then snd (?s ! 1) else c)"
  have clear: "clear_bids req bids = Allocated (req, w, price)"
    using clear_bids_nonempty [OF ne] by (simp add: w_def c_def price_def)
  have "(req, w, price) \<in> set allocations"
    using Auctioneer_run_allocations [OF run] req bids clear by auto
  moreover have "(w, c) \<in> set bids"
    using hd_sort_key_in [OF ne] by (simp add: w_def c_def)
  then have wc: "w < length providers \<and> cost_for_request (providers ! w) req G = Inr (Some c)"
    using collect_bids_enumerate [OF bids] by simp
  moreover have "\<forall>i c'. i < length providers \<and> cost_for_request (providers ! i) req G = Inr (Some c')
      \<longrightarrow> c \<le> c'"
  proof (intro allI impI)
    fix i c'
    assume "i < length providers \<and> cost_for_request (providers ! i) req G = Inr (Some c')"
    then have "(i, c') \<in> set bids" using collect_bids_enumerate [OF bids] by simp
    from hd_sort_key_le [OF this] show "c \<le> c'" by (simp add: c_def)
  qed
  moreover have pr: "price = (if length bids \<ge> 2 then sort (map snd bids) ! 1 else c)"
  proof (cases "length bids > 1")
    case True
    then show ?thesis using second_sort_key_sort [OF True] by (simp add: price_def)
  next
    case False
    then show ?thesis by (simp add: price_def)
  qed
  moreover have "\<forall>bids'. mset bids' = mset bids \<longrightarrow>
      (\<exists>w'. clear_bids req bids' = Allocated (req, w', price))"
  proof (intro allI impI)
    fix bids' :: "bid list"
    assume m: "mset bids' = mset bids"
    then have len: "length bids' = length bids" by (metis size_mset)
    then have ne': "bids' \<noteq> []" using ne by auto
    have "mset (map snd bids') = mset (map snd bids)" using m by (metis mset_map)
    then have srt: "sort (map snd bids') = sort (map snd bids)"
      by (metis properties_for_sort sorted_sort mset_sort)
    have "(if length bids' > 1 then snd (sort_key snd bids' ! 1) else snd (hd (sort_key snd bids')))
        = price"
    proof (cases "length bids > 1")
      case True
      then have "length bids' > 1" using len by simp
      then show ?thesis using second_sort_key_sort [of bids'] srt pr True by simp
    next
      case False
      then obtain b where b: "bids = [b]" using ne by (cases bids) auto
      then have "mset bids' = {#b#}" using m by simp
      then have "bids' = [b]" by (metis mset_single_iff_right mset.simps(2) mset_zero_iff add_mset_eq_single)
      then show ?thesis using b by (simp add: price_def c_def)
    qed
    then show "\<exists>w'. clear_bids req bids' = Allocated (req, w', price)"
      using clear_bids_nonempty [OF ne', of req] by simp
  qed
  ultimately show ?thesis by blast
qed

theorem second_price_clearing_witness:
  "Auctioneer_run [ex_request] ex_providers ex_graph = Inr ([(ex_request, 1, 12 / 5)], [])
   \<and> ex_request \<in> set [ex_request]
   \<and> collect_bids (enumerate 0 ex_providers) ex_request ex_graph =
       Inr [(0, 49 / 20), (1, 47 / 20), (2, 12 / 5)]
   \<and> (\<exists>w c price.
      (ex_request, w, price) \<in> set [(ex_request, 1, 12 / 5)]
      \<and> w < length ex_providers
      \<and> cost_for_request (ex_providers ! w) ex_request ex_graph = Inr (Some c)
      \<and> price = sort (map snd [(0 :: nat, 49 / 20 :: real), (1, 47 / 20), (2, 12 / 5)]) ! 1)"
proof -
  have h2: "ex_request \<in> set [ex_request]" by simp
  have h4: "[(0 :: nat, 49 / 20 :: real), (1, 47 / 20), (2, 12 / 5)] \<noteq> []" by simp
  from second_price_clearing [OF ex_Auctioneer_run h2 ex_collect_bids h4]
  obtain w c price where
    "(ex_request, w, price) \<in> set [(ex_request, 1, 12 / 5)]"
    "w < length ex_providers"
    "cost_for_request (ex_providers ! w) ex_request ex_graph = Inr (Some c)"
    "price = (if length [(0 :: nat, 49 / 20 :: real), (1, 47 / 20), (2, 12 / 5)] \<ge> 2
       then sort (map snd [(0 :: nat, 49 / 20 :: real), (1, 47 / 20), (2, 12 / 5)]) ! 1 else c)"
    by blast
  then show ?thesis using ex_Auctioneer_run ex_collect_bids h2 by auto
qed

text \<open>
  C10: for every allocation the auctioneer emits, the winner is one of the providers, it
  bid a cost for the request, and the clearing price is at least that cost.
\<close>

theorem payment_at_least_own_cost:
  assumes run: "Auctioneer_run reqs providers G = Inr (allocations, rejections)"
    and a: "(req, w, price) \<in> set allocations"
  shows "w < length providers
     \<and> (\<exists>c. cost_for_request (providers ! w) req G = Inr (Some c) \<and> c \<le> price)"
proof -
  from Auctioneer_run_allocations [OF run] a obtain req' bids where
    req': "req' \<in> set reqs" and
    bids: "collect_bids (enumerate 0 providers) req' G = Inr bids" and
    clear: "clear_bids req' bids = Allocated (req, w, price)"
    by auto
  have ne: "bids \<noteq> []" using clear by (auto simp: clear_bids_Nil)
  let ?s = "sort_key snd bids"
  from clear clear_bids_nonempty [OF ne, of req'] have
    eq: "req' = req" "w = fst (hd ?s)"
      "price = (if length bids > 1 then snd (?s ! 1) else snd (hd ?s))"
    by simp_all
  have "(w, snd (hd ?s)) \<in> set bids" using hd_sort_key_in [OF ne] eq(2) by simp
  then have "w < length providers \<and> cost_for_request (providers ! w) req G = Inr (Some (snd (hd ?s)))"
    using collect_bids_enumerate [OF bids] eq(1) by simp
  moreover have "snd (hd ?s) \<le> price"
    using second_sort_key_ge [of bids] eq(3) by (cases "length bids > 1") simp_all
  ultimately show ?thesis by blast
qed

theorem payment_at_least_own_cost_witness:
  "Auctioneer_run [ex_request] ex_providers ex_graph = Inr ([(ex_request, 1, 12 / 5)], [])
   \<and> (ex_request, 1, 12 / 5) \<in> set [(ex_request, 1 :: nat, 12 / 5 :: real)]
   \<and> (1 :: nat) < length ex_providers
   \<and> cost_for_request (ex_providers ! 1) ex_request ex_graph = Inr (Some (47 / 20))
   \<and> (47 / 20 :: real) \<le> 12 / 5"
proof -
  have h2: "(ex_request, 1, 12 / 5) \<in> set [(ex_request, 1 :: nat, 12 / 5 :: real)]" by simp
  have c: "cost_for_request (ex_providers ! 1) ex_request ex_graph = Inr (Some (47 / 20))"
    by (simp add: ex_defs cost_for_request_def has_edge_def edge_weight_def)
  from payment_at_least_own_cost [OF ex_Auctioneer_run h2] c
  show ?thesis using ex_Auctioneer_run by simp
qed

section \<open>Applying an allocation\<close>

lemma remove_pending_Inr:
  "remove_pending i t ds = Inr ds' \<Longrightarrow>
     \<exists>k<length ds. agent_id (ds ! k) = i \<and> (\<forall>j<k. agent_id (ds ! j) \<noteq> i)
       \<and> t \<in> set (pending_tasks (ds ! k))
       \<and> ds' = ds[k := (ds ! k)\<lparr>pending_tasks := remove1 t (pending_tasks (ds ! k))\<rparr>]"
proof (induction ds arbitrary: ds')
  case Nil
  then show ?case by simp
next
  case (Cons d ds)
  show ?case
  proof (cases "agent_id d = i")
    case True
    with Cons.prems have "t \<in> set (pending_tasks d)"
      and "ds' = d\<lparr>pending_tasks := remove1 t (pending_tasks d)\<rparr> # ds"
      by (auto split: if_splits)
    with True show ?thesis by (intro exI [of _ 0]) simp
  next
    case False
    with Cons.prems obtain ds0 where r: "remove_pending i t ds = Inr ds0" and ds': "ds' = d # ds0"
      by (auto split: sum.splits)
    from Cons.IH [OF r] obtain k where k: "k < length ds" "agent_id (ds ! k) = i"
      "\<forall>j<k. agent_id (ds ! j) \<noteq> i" "t \<in> set (pending_tasks (ds ! k))"
      "ds0 = ds[k := (ds ! k)\<lparr>pending_tasks := remove1 t (pending_tasks (ds ! k))\<rparr>]"
      by blast
    have "\<forall>j<Suc k. agent_id ((d # ds) ! j) \<noteq> i"
      using False k(3) by (auto simp: less_Suc_eq_0_disj)
    with k ds' show ?thesis by (intro exI [of _ "Suc k"]) simp
  qed
qed

text \<open>
  C7: applying one allocation to a valid winner decreases the winner's available cpu and
  memory by exactly the task's demands, changes no other field of the winner and no other
  provider, and removes one occurrence of the task from the pending tasks of the device
  with the request's identifier, leaving every other device and every other pending task
  in place.
\<close>

theorem allocation_conservation_frame:
  assumes app: "apply_allocation st (req, w, price) = Inr st'"
    and w: "w < length (st_nodes st)"
  shows "length (st_nodes st') = length (st_nodes st)
    \<and> of_cpu (available (st_nodes st' ! w)) = of_cpu (available (st_nodes st ! w)) - cpu (task req)
    \<and> of_memory (available (st_nodes st' ! w)) =
        of_memory (available (st_nodes st ! w)) - memory (task req)
    \<and> st_nodes st' ! w = (st_nodes st ! w)\<lparr>available := available (st_nodes st' ! w)\<rparr>
    \<and> (\<forall>i. i \<noteq> w \<longrightarrow> st_nodes st' ! i = st_nodes st ! i)
    \<and> (\<exists>k<length (st_devices st).
          agent_id (st_devices st ! k) = device_id req
          \<and> (\<forall>j<k. agent_id (st_devices st ! j) \<noteq> device_id req)
          \<and> task req \<in> set (pending_tasks (st_devices st ! k))
          \<and> mset (pending_tasks (st_devices st' ! k)) =
              mset (pending_tasks (st_devices st ! k)) - {#task req#}
          \<and> st_devices st' = (st_devices st)[k := (st_devices st ! k)
                \<lparr>pending_tasks := remove1 (task req) (pending_tasks (st_devices st ! k))\<rparr>])"
proof -
  from app obtain n ds' where
    n: "map_of (per_device_allocated st) (device_id req) = Some n" and
    r: "remove_pending (device_id req) (task req) (st_devices st) = Inr ds'" and
    st': "st' = \<lparr>st_nodes = (st_nodes st)[w := allocate (st_nodes st ! w) req],
              st_devices = ds',
              per_device_allocated = AList.update (device_id req) (n + 1) (per_device_allocated st),
              welfare = welfare st + (bid_value req - price)\<rparr>"
    by (auto simp: apply_allocation_def Let_def split: option.splits sum.splits)
  have nodes: "st_nodes st' = (st_nodes st)[w := allocate (st_nodes st ! w) req]"
    and devs: "st_devices st' = ds'"
    by (simp_all add: st')
  from remove_pending_Inr [OF r] obtain k where k: "k < length (st_devices st)"
      "agent_id (st_devices st ! k) = device_id req"
      "\<forall>j<k. agent_id (st_devices st ! j) \<noteq> device_id req"
      "task req \<in> set (pending_tasks (st_devices st ! k))"
      "ds' = (st_devices st)[k := (st_devices st ! k)
          \<lparr>pending_tasks := remove1 (task req) (pending_tasks (st_devices st ! k))\<rparr>]"
    by blast
  have "mset (pending_tasks (st_devices st' ! k)) =
      mset (pending_tasks (st_devices st ! k)) - {#task req#}"
    using k(1) by (simp add: devs k(5))
  with k devs have dev_part: "\<exists>k<length (st_devices st).
          agent_id (st_devices st ! k) = device_id req
          \<and> (\<forall>j<k. agent_id (st_devices st ! j) \<noteq> device_id req)
          \<and> task req \<in> set (pending_tasks (st_devices st ! k))
          \<and> mset (pending_tasks (st_devices st' ! k)) =
              mset (pending_tasks (st_devices st ! k)) - {#task req#}
          \<and> st_devices st' = (st_devices st)[k := (st_devices st ! k)
                \<lparr>pending_tasks := remove1 (task req) (pending_tasks (st_devices st ! k))\<rparr>]"
    by blast
  have "st_nodes st' ! w = allocate (st_nodes st ! w) req" using w by (simp add: nodes)
  then have "of_cpu (available (st_nodes st' ! w)) = of_cpu (available (st_nodes st ! w)) - cpu (task req)"
    and "of_memory (available (st_nodes st' ! w)) =
        of_memory (available (st_nodes st ! w)) - memory (task req)"
    and "st_nodes st' ! w = (st_nodes st ! w)\<lparr>available := available (st_nodes st' ! w)\<rparr>"
    by (simp_all add: allocate_def)
  moreover have "length (st_nodes st') = length (st_nodes st)" by (simp add: nodes)
  moreover have "\<forall>i. i \<noteq> w \<longrightarrow> st_nodes st' ! i = st_nodes st ! i" by (simp add: nodes)
  ultimately show ?thesis using dev_part by blast
qed

lemma ex_apply_allocation:
  "apply_allocation ex_state (ex_request, 1, 12 / 5) =
     Inr \<lparr>st_nodes = [new_EdgeNode 0 21 33,
                      (new_EdgeNode 1 25 40)\<lparr>available := \<lparr>of_cpu = 35 / 2, of_memory = 28\<rparr>\<rparr>,
                      new_EdgeNode 2 30 50],
          st_devices = [new_IoTDevice 4 ''sensor'', new_IoTDevice 3 ''camera''],
          per_device_allocated = [(4, 0), (3, 1)], welfare = 23 / 5\<rparr>"
  by (simp add: ex_state_def ex_defs apply_allocation_def allocate_def generate_task_def
      new_IoTDevice_def)

theorem allocation_conservation_frame_witness:
  "apply_allocation ex_state (ex_request, 1, 12 / 5) =
     Inr \<lparr>st_nodes = [new_EdgeNode 0 21 33,
                      (new_EdgeNode 1 25 40)\<lparr>available := \<lparr>of_cpu = 35 / 2, of_memory = 28\<rparr>\<rparr>,
                      new_EdgeNode 2 30 50],
          st_devices = [new_IoTDevice 4 ''sensor'', new_IoTDevice 3 ''camera''],
          per_device_allocated = [(4, 0), (3, 1)], welfare = 23 / 5\<rparr>
   \<and> (1 :: nat) < length (st_nodes ex_state)
   \<and> of_cpu (available (st_nodes ex_state ! 1)) - cpu (task ex_request) = 35 / 2
   \<and> of_memory (available (st_nodes ex_state ! 1)) - memory (task ex_request) = 28
   \<and> st_devices ex_state ! 1 = generate_task (new_IoTDevice 3 ''camera'') ex_task"
proof -
  have w: "(1 :: nat) < length (st_nodes ex_state)" by (simp add: ex_state_def ex_defs)
  from allocation_conservation_frame [OF ex_apply_allocation w]
  have "of_cpu (available (st_nodes ex_state ! 1)) - cpu (task ex_request) = 35 / 2"
    and "of_memory (available (st_nodes ex_state ! 1)) - memory (task ex_request) = 28"
    by (simp_all add: new_EdgeNode_def)
  then show ?thesis using ex_apply_allocation w by (simp add: ex_state_def)
qed

section \<open>Building the requests\<close>

lemma py_min_Min: "xs \<noteq> [] \<Longrightarrow> py_min xs = Inr (Min (set xs))"
proof (cases xs)
  case Nil
  assume "xs \<noteq> []"
  with Nil show ?thesis by simp
next
  case (Cons y ys)
  have "fold min ys y = Min (set (y # ys))" by (rule Min.set_eq_fold [symmetric])
  with Cons show ?thesis by (simp add: py_min_def)
qed

lemma set_direct_latencies:
  "set (direct_latencies G i providers) =
     {w. \<exists>p\<in>set providers. edge_weight G i (agent_id p) = Some w}"
  by (fastforce simp: direct_latencies_def has_edge_def image_iff)

lemma direct_latencies_Nil_iff:
  "direct_latencies G i providers = [] \<longleftrightarrow> (\<forall>p\<in>set providers. \<not> has_edge G i (agent_id p))"
  by (simp add: direct_latencies_def filter_empty_conv)

lemma build_requests_loop_map:
  assumes "py_min (direct_latencies G i providers) = Inr L"
    and "\<forall>t\<in>set ts. deadline t \<noteq> 0"
  shows "build_requests_loop i G providers ts =
     Inr (map (\<lambda>t. \<lparr>device_id = i, task = t,
        bid_value = real_of_int (priority t) * (cpu t + memory t)
          * exp (- (L + cpu t / 10) / deadline t) - L * (1 / 10)\<rparr>) ts)"
  using assms(2)
proof (induction ts)
  case Nil
  show ?case by simp
next
  case (Cons t ts)
  have "build_request i G providers t = Inr \<lparr>device_id = i, task = t,
        bid_value = real_of_int (priority t) * (cpu t + memory t)
          * exp (- (L + cpu t / 10) / deadline t) - L * (1 / 10)\<rparr>"
    using Cons.prems unfolding build_request_def utility_for_task_def assms(1) Let_def
    by simp
  moreover have "build_requests_loop i G providers ts =
     Inr (map (\<lambda>t. \<lparr>device_id = i, task = t,
        bid_value = real_of_int (priority t) * (cpu t + memory t)
          * exp (- (L + cpu t / 10) / deadline t) - L * (1 / 10)\<rparr>) ts)"
    using Cons by simp
  ultimately show ?case by (simp del: divide_minus_left)
qed

text \<open>
  C8: for a consumer with at least one directly connected provider (and tasks whose
  deadline is not zero), \<open>build_requests\<close> returns one request per pending task, in order,
  whose bid value is
  \<open>priority \<cdot> (cpu + memory) \<cdot> exp (-(L + cpu / 10) / deadline) - L \<cdot> 0.1\<close>, where \<open>L\<close> is the
  minimum weight of the direct edges between the consumer and the providers; providers
  without a direct edge do not enter the minimum.
\<close>

theorem bid_value_formula:
  assumes "\<exists>p\<in>set providers. has_edge G (agent_id dev) (agent_id p)"
    and "\<forall>t\<in>set (pending_tasks dev). deadline t \<noteq> 0"
  shows "build_requests dev G providers =
     (let L = Min {w. \<exists>p\<in>set providers. edge_weight G (agent_id dev) (agent_id p) = Some w}
      in Inr (map (\<lambda>t. \<lparr>device_id = agent_id dev, task = t,
        bid_value = real_of_int (priority t) * (cpu t + memory t)
          * exp (- (L + cpu t / 10) / deadline t) - L * (1 / 10)\<rparr>) (pending_tasks dev)))"
proof -
  have "direct_latencies G (agent_id dev) providers \<noteq> []"
    using assms(1) by (simp add: direct_latencies_Nil_iff)
  then have "py_min (direct_latencies G (agent_id dev) providers) =
      Inr (Min {w. \<exists>p\<in>set providers. edge_weight G (agent_id dev) (agent_id p) = Some w})"
    by (simp add: py_min_Min set_direct_latencies)
  from build_requests_loop_map [OF this assms(2)] show ?thesis
    by (simp add: build_requests_def Let_def)
qed

lemma ex_latency_set:
  "{w. \<exists>p\<in>set ex_providers. edge_weight ex_graph 3 (agent_id p) = Some w} = {2, 1, 3 / 2}"
  by (auto simp: ex_defs edge_weight_def)

theorem bid_value_formula_witness:
  "has_edge ex_graph 3 1
   \<and> deadline ex_task \<noteq> 0
   \<and> build_requests (generate_task (new_IoTDevice 3 ''camera'') ex_task) ex_graph ex_providers =
       Inr [\<lparr>device_id = 3, task = ex_task, bid_value = 117 / 2 * exp (- (7 / 4)) - 1 / 10\<rparr>]"
proof -
  let ?dev = "generate_task (new_IoTDevice 3 ''camera'') ex_task"
  have h1: "\<exists>p\<in>set ex_providers. has_edge ex_graph (agent_id ?dev) (agent_id p)"
    by (simp add: ex_defs has_edge_def edge_weight_def generate_task_def new_IoTDevice_def)
  have h2: "\<forall>t\<in>set (pending_tasks ?dev). deadline t \<noteq> 0"
    by (simp add: ex_defs generate_task_def new_IoTDevice_def)
  have id: "agent_id ?dev = 3" by (simp add: generate_task_def new_IoTDevice_def)
  have "build_requests ?dev ex_graph ex_providers =
       Inr [\<lparr>device_id = 3, task = ex_task, bid_value = 117 / 2 * exp (- (7 / 4)) - 1 / 10\<rparr>]"
    using bid_value_formula [OF h1 h2] unfolding id ex_latency_set
    by (simp add: generate_task_def new_IoTDevice_def ex_task_def)
  moreover have "has_edge ex_graph 3 1" by (simp add: ex_defs has_edge_def edge_weight_def)
  moreover have "deadline ex_task \<noteq> 0" by (simp add: ex_task_def)
  ultimately show ?thesis by simp
qed

lemma build_requests_no_direct_provider:
  assumes "\<forall>p\<in>set providers. \<not> has_edge G (agent_id dev) (agent_id p)"
  shows "build_requests dev G providers =
     (if pending_tasks dev = [] then Inr [] else Inl ValueError)"
proof -
  have "direct_latencies G (agent_id dev) providers = []"
    using assms by (simp add: direct_latencies_Nil_iff)
  then show ?thesis
    by (cases "pending_tasks dev") (simp_all add: build_requests_def build_request_def py_min_def)
qed

text \<open>
  C2 (the code at the failing input): a device with one pending task and no direct edge
  to any provider. \<open>min\<close> is applied to an empty generator and \<open>ValueError\<close> escapes
  \<open>build_requests\<close>, where the claim asks for an empty list of requests.
\<close>

theorem build_requests_isolated_consumer_raises:
  "build_requests (generate_task (new_IoTDevice 3 ''camera'') ex_task)
     \<lparr>g_nodes = [0, 1, 2, 3], g_edges = [(0, 1, 3)]\<rparr> ex_providers = Inl ValueError"
  by (simp add: build_requests_def build_request_def direct_latencies_def py_min_def
      has_edge_def edge_weight_def generate_task_def new_IoTDevice_def ex_defs)

section \<open>The declared utility does not influence the clearing\<close>

lemma cost_for_request_cong:
  assumes d: "device_id r = device_id r'" and t: "task r = task r'"
  shows "cost_for_request p r G = cost_for_request p r' G"
  unfolding cost_for_request_def d t by (rule refl)

lemma collect_bids_cong:
  "device_id r = device_id r' \<Longrightarrow> task r = task r' \<Longrightarrow>
     collect_bids ips r G = collect_bids ips r' G"
proof (induction ips)
  case Nil
  show ?case by simp
next
  case (Cons ip ips)
  obtain i p where ip: "ip = (i, p)" by (cases ip)
  show ?case
    using Cons cost_for_request_cong [of r r' p G]
    by (simp add: ip split: sum.splits option.splits)
qed

lemma clear_bids_cases:
  "clear_bids r bids = (if bids = [] then Rejected (r, ''no provider'')
     else Allocated (r, fst (hd (sort_key snd bids)),
       (if length bids > 1 then snd (sort_key snd bids ! 1) else snd (hd (sort_key snd bids)))))"
  using clear_bids_nonempty [of bids r] by (simp add: clear_bids_Nil)

lemma Auctioneer_run_view:
  "map device_id reqs = map device_id reqs' \<Longrightarrow> map task reqs = map task reqs' \<Longrightarrow>
     auction_view (Auctioneer_run reqs providers G) = auction_view (Auctioneer_run reqs' providers G)"
proof (induction reqs arbitrary: reqs')
  case Nil
  then show ?case by simp
next
  case (Cons r reqs)
  from Cons.prems obtain r' rs' where reqs': "reqs' = r' # rs'"
    and r: "device_id r = device_id r'" "task r = task r'"
    and rs: "map device_id reqs = map device_id rs'" "map task reqs = map task rs'"
    by (cases reqs') auto
  have cb: "collect_bids (enumerate 0 providers) r G = collect_bids (enumerate 0 providers) r' G"
    using r by (rule collect_bids_cong)
  note IH = Cons.IH [OF rs]
  show ?case
  proof (cases "collect_bids (enumerate 0 providers) r' G")
    case (Inl e)
    then show ?thesis using cb by (simp add: reqs' auction_view_def)
  next
    case (Inr bids)
    show ?thesis
    proof (cases "Auctioneer_run reqs providers G")
      case (Inl e)
      with IH have "\<exists>e'. Auctioneer_run rs' providers G = Inl e' \<and> e' = e"
        by (cases "Auctioneer_run rs' providers G") (auto simp: auction_view_def)
      with Inl Inr cb show ?thesis by (auto simp: reqs' auction_view_def)
    next
      case run: (Inr out)
      obtain al rj where out: "out = (al, rj)" by (cases out)
      from IH run out obtain al' rj' where run': "Auctioneer_run rs' providers G = Inr (al', rj')"
        and v: "map allocation_view al = map allocation_view al'"
          "map rejection_view rj = map rejection_view rj'"
        by (cases "Auctioneer_run rs' providers G") (auto simp: auction_view_def)
      show ?thesis
        using Inr cb run out run' v r
        by (simp add: reqs' auction_view_def clear_bids_cases allocation_view_def
            rejection_view_def)
    qed
  qed
qed

lemma apply_allocation_view:
  assumes "allocation_view a = allocation_view a'"
    and "st_nodes st = st_nodes st'" "st_devices st = st_devices st'"
    and "per_device_allocated st = per_device_allocated st'"
  shows "state_view (apply_allocation st a) = state_view (apply_allocation st' a')"
proof -
  obtain r w p where a: "a = (r, w, p)" by (cases a)
  obtain r' w' p' where a': "a' = (r', w', p')" by (cases a')
  from assms(1) have eq: "device_id r = device_id r'" "task r = task r'" "w = w'"
    by (simp_all add: a a' allocation_view_def)
  have "allocate (st_nodes st' ! w') r = allocate (st_nodes st' ! w') r'"
    using eq by (simp add: allocate_def)
  then show ?thesis
    using assms(2-4) eq
    by (simp add: a a' apply_allocation_def state_view_def Let_def
        split: option.splits sum.splits)
qed

lemma apply_allocations_view:
  "map allocation_view al = map allocation_view al' \<Longrightarrow>
   st_nodes st = st_nodes st' \<Longrightarrow> st_devices st = st_devices st' \<Longrightarrow>
   per_device_allocated st = per_device_allocated st' \<Longrightarrow>
     state_view (apply_allocations st al) = state_view (apply_allocations st' al')"
proof (induction al arbitrary: al' st st')
  case Nil
  then show ?case by (simp add: state_view_def)
next
  case (Cons a al)
  from Cons.prems(1) obtain a' as' where al': "al' = a' # as'"
    and a: "allocation_view a = allocation_view a'"
    and as: "map allocation_view al = map allocation_view as'"
    by (cases al') auto
  have step: "state_view (apply_allocation st a) = state_view (apply_allocation st' a')"
    using a Cons.prems(2-4) by (rule apply_allocation_view)
  show ?case
  proof (cases "apply_allocation st a")
    case (Inl e)
    with step have "apply_allocation st' a' = Inl e"
      by (cases "apply_allocation st' a'") (auto simp: state_view_def)
    with Inl show ?thesis by (simp add: al' state_view_def)
  next
    case (Inr st1)
    with step obtain st1' where s1: "apply_allocation st' a' = Inr st1'"
      and eq: "st_nodes st1 = st_nodes st1'" "st_devices st1 = st_devices st1'"
        "per_device_allocated st1 = per_device_allocated st1'"
      by (cases "apply_allocation st' a'") (auto simp: state_view_def)
    from Cons.IH [OF as eq] Inr s1 show ?thesis by (simp add: al')
  qed
qed

lemma apply_allocations_welfare:
  "apply_allocations st al = Inr st1 \<Longrightarrow>
     welfare st1 = welfare st + (\<Sum>a\<leftarrow>al. bid_value (fst a) - snd (snd a))"
proof (induction al arbitrary: st)
  case Nil
  then show ?case by simp
next
  case (Cons a al)
  from Cons.prems obtain st0 where s0: "apply_allocation st a = Inr st0"
    and rest: "apply_allocations st0 al = Inr st1"
    by (auto split: sum.splits)
  have "welfare st0 = welfare st + (bid_value (fst a) - snd (snd a))"
    using s0 by (cases a) (auto simp: apply_allocation_def Let_def split: option.splits sum.splits)
  with Cons.IH [OF rest] show ?case by simp
qed

text \<open>
  C9: two batches that differ only in the \<open>bid_value\<close> fields get the same result from the
  auctioneer up to those fields (the same error, or the same winners, clearing prices and
  rejections, request by request); applying the two allocation lists changes the
  providers, the devices and the allocation counts in the same way; and the welfare is
  the sum of \<open>bid_value - clearing_price\<close> over the allocations.
\<close>

theorem bid_value_noninterference:
  assumes "map device_id reqs = map device_id reqs'"
    and "map task reqs = map task reqs'"
  shows "auction_view (Auctioneer_run reqs providers G) =
         auction_view (Auctioneer_run reqs' providers G)
    \<and> (\<forall>al rj al' rj' st.
          Auctioneer_run reqs providers G = Inr (al, rj)
          \<and> Auctioneer_run reqs' providers G = Inr (al', rj') \<longrightarrow>
            state_view (apply_allocations st al) = state_view (apply_allocations st al')
            \<and> (\<forall>st1. apply_allocations st al = Inr st1 \<longrightarrow>
                 welfare st1 = welfare st + (\<Sum>a\<leftarrow>al. bid_value (fst a) - snd (snd a))))"
proof -
  have v: "auction_view (Auctioneer_run reqs providers G) =
         auction_view (Auctioneer_run reqs' providers G)"
    using assms by (rule Auctioneer_run_view)
  have "state_view (apply_allocations st al) = state_view (apply_allocations st al')"
    if "Auctioneer_run reqs providers G = Inr (al, rj)"
      and "Auctioneer_run reqs' providers G = Inr (al', rj')"
    for al rj al' rj' st
  proof -
    from v that have "map allocation_view al = map allocation_view al'"
      by (simp add: auction_view_def)
    then show ?thesis by (rule apply_allocations_view) simp_all
  qed
  with v show ?thesis using apply_allocations_welfare by blast
qed

lemma ex_Auctioneer_run_other_bid:
  "Auctioneer_run [ex_request\<lparr>bid_value := 100\<rparr>] ex_providers ex_graph =
     Inr ([(ex_request\<lparr>bid_value := 100\<rparr>, 1, 12 / 5)], [])"
  by (simp add: ex_defs enumerate_eq_zip cost_for_request_def has_edge_def edge_weight_def
      clear_bids_def)

lemma ex_apply_allocations:
  "apply_allocations ex_state [(ex_request, 1, 12 / 5)] =
     Inr \<lparr>st_nodes = [new_EdgeNode 0 21 33,
                      (new_EdgeNode 1 25 40)\<lparr>available := \<lparr>of_cpu = 35 / 2, of_memory = 28\<rparr>\<rparr>,
                      new_EdgeNode 2 30 50],
          st_devices = [new_IoTDevice 4 ''sensor'', new_IoTDevice 3 ''camera''],
          per_device_allocated = [(4, 0), (3, 1)], welfare = 23 / 5\<rparr>"
  by (simp only: apply_allocations.simps ex_apply_allocation sum.case)

theorem bid_value_noninterference_witness:
  "map device_id [ex_request] = map device_id [ex_request\<lparr>bid_value := 100\<rparr>]
   \<and> map task [ex_request] = map task [ex_request\<lparr>bid_value := 100\<rparr>]
   \<and> Auctioneer_run [ex_request] ex_providers ex_graph = Inr ([(ex_request, 1, 12 / 5)], [])
   \<and> Auctioneer_run [ex_request\<lparr>bid_value := 100\<rparr>] ex_providers ex_graph =
       Inr ([(ex_request\<lparr>bid_value := 100\<rparr>, 1, 12 / 5)], [])
   \<and> state_view (apply_allocations ex_state [(ex_request, 1, 12 / 5)]) =
       state_view (apply_allocations ex_state [(ex_request\<lparr>bid_value := 100\<rparr>, 1, 12 / 5)])
   \<and> (23 / 5 :: real) = welfare ex_state + (bid_value ex_request - 12 / 5)"
proof -
  have h1: "map device_id [ex_request] = map device_id [ex_request\<lparr>bid_value := 100\<rparr>]"
    by simp
  have h2: "map task [ex_request] = map task [ex_request\<lparr>bid_value := 100\<rparr>]"
    by simp
  from bid_value_noninterference [OF h1 h2, of ex_providers ex_graph]
    ex_Auctioneer_run ex_Auctioneer_run_other_bid
  have a: "state_view (apply_allocations ex_state [(ex_request, 1, 12 / 5)]) =
       state_view (apply_allocations ex_state [(ex_request\<lparr>bid_value := 100\<rparr>, 1, 12 / 5)])"
    and b: "\<forall>st1. apply_allocations ex_state [(ex_request, 1, 12 / 5)] = Inr st1 \<longrightarrow>
       welfare st1 = welfare ex_state + (\<Sum>a\<leftarrow>[(ex_request, 1 :: nat, 12 / 5 :: real)].
         bid_value (fst a) - snd (snd a))"
    by blast+
  from b ex_apply_allocations
  have "(23 / 5 :: real) = welfare ex_state + (bid_value ex_request - 12 / 5)"
    by simp
  with a h1 h2 ex_Auctioneer_run ex_Auctioneer_run_other_bid show ?thesis by blast
qed

section \<open>A round of the simulator\<close>

lemma run_round_Inr:
  assumes "run_round sys draw = Inr (sys', m)"
  obtains devs1 reqs al rj st where
    "create_requests (network sys) (nodes sys) draw 0 (devices sys) = Inr (devs1, reqs)"
    "Auctioneer_run reqs (nodes sys) (network sys) = Inr (al, rj)"
    "apply_allocations \<lparr>st_nodes = nodes sys, st_devices = devs1,
        per_device_allocated = init_allocated devs1, welfare = 0\<rparr> al = Inr st"
    "sys' = sys\<lparr>nodes := st_nodes st, devices := st_devices st\<rparr>"
  using assms
  by (auto simp: run_round_def Let_def split: sum.splits prod.splits)

lemma build_requests_loop_tasks:
  "build_requests_loop i G providers ts = Inr rs \<Longrightarrow>
     map task rs = ts \<and> (\<forall>r\<in>set rs. device_id r = i)"
proof (induction ts arbitrary: rs)
  case Nil
  then show ?case by simp
next
  case (Cons t ts)
  from Cons.prems obtain r rs0 where r: "build_request i G providers t = Inr r"
    and rs0: "build_requests_loop i G providers ts = Inr rs0" and rs: "rs = r # rs0"
    by (auto split: sum.splits)
  from r have "task r = t \<and> device_id r = i"
    by (auto simp: build_request_def Let_def split: sum.splits)
  with Cons.IH [OF rs0] rs show ?case by simp
qed

lemma create_requests_origin:
  "create_requests G providers draw k devs = Inr (devs1, reqs) \<Longrightarrow> r \<in> set reqs \<Longrightarrow>
     \<exists>d\<in>set devs1. agent_id d = device_id r \<and> task r \<in> set (pending_tasks d)"
proof (induction devs arbitrary: k devs1 reqs)
  case Nil
  then show ?case by simp
next
  case (Cons dev devs)
  let ?dev = "generate_task dev (draw k)"
  from Cons.prems(1) obtain rs ds rest where
    b: "build_requests ?dev G providers = Inr rs" and
    c: "create_requests G providers draw (Suc k) devs = Inr (ds, rest)" and
    eq: "devs1 = ?dev # ds" "reqs = rs @ rest"
    by (auto simp: Let_def split: sum.splits)
  from Cons.prems(2) eq consider "r \<in> set rs" | "r \<in> set rest" by auto
  then show ?case
  proof cases
    case 1
    from build_requests_loop_tasks [OF b [unfolded build_requests_def]]
    have m: "map task rs = pending_tasks ?dev" and i: "\<forall>r\<in>set rs. device_id r = agent_id ?dev"
      by simp_all
    have "task r \<in> set (map task rs)" using 1 by simp
    then have "task r \<in> set (pending_tasks ?dev)" by (simp only: m)
    moreover have "device_id r = agent_id ?dev" using i 1 by simp
    ultimately show ?thesis by (simp add: eq)
  next
    case 2
    from Cons.IH [OF c 2] show ?thesis by (auto simp: eq)
  qed
qed

lemma create_requests_covers:
  "create_requests G providers draw k devs = Inr (devs1, reqs) \<Longrightarrow> d \<in> set devs \<Longrightarrow>
     t \<in> set (pending_tasks d) \<Longrightarrow> \<exists>r\<in>set reqs. device_id r = agent_id d \<and> task r = t"
proof (induction devs arbitrary: k devs1 reqs)
  case Nil
  then show ?case by simp
next
  case (Cons dev devs)
  let ?dev = "generate_task dev (draw k)"
  from Cons.prems(1) obtain rs ds rest where
    b: "build_requests ?dev G providers = Inr rs" and
    c: "create_requests G providers draw (Suc k) devs = Inr (ds, rest)" and
    eq: "devs1 = ?dev # ds" "reqs = rs @ rest"
    by (auto simp: Let_def split: sum.splits)
  from Cons.prems(2) consider "d = dev" | "d \<in> set devs" by auto
  then show ?case
  proof cases
    case 1
    from build_requests_loop_tasks [OF b [unfolded build_requests_def]]
    have m: "map task rs = pending_tasks ?dev" and i: "\<forall>r\<in>set rs. device_id r = agent_id ?dev"
      by simp_all
    have "t \<in> set (pending_tasks ?dev)" using Cons.prems(3) 1 by (simp add: generate_task_def)
    then have "t \<in> task ` set rs" using m by (metis list.set_map)
    then obtain r where "r \<in> set rs" "task r = t" by auto
    with i 1 show ?thesis by (auto simp: eq generate_task_def)
  next
    case 2
    from Cons.IH [OF c 2 Cons.prems(3)] show ?thesis by (auto simp: eq)
  qed
qed

lemma remove_pending_keeps:
  "remove_pending j t' ds = Inr ds' \<Longrightarrow> j \<noteq> i \<or> t' \<noteq> t \<Longrightarrow>
   \<exists>d\<in>set ds. agent_id d = i \<and> t \<in> set (pending_tasks d) \<Longrightarrow>
     \<exists>d\<in>set ds'. agent_id d = i \<and> t \<in> set (pending_tasks d)"
proof (induction ds arbitrary: ds')
  case Nil
  then show ?case by simp
next
  case (Cons d ds)
  show ?case
  proof (cases "agent_id d = j")
    case True
    with Cons.prems(1) have ds': "ds' = d\<lparr>pending_tasks := remove1 t' (pending_tasks d)\<rparr> # ds"
      by (auto split: if_splits)
    from Cons.prems(3) consider "agent_id d = i" "t \<in> set (pending_tasks d)"
      | "\<exists>x\<in>set ds. agent_id x = i \<and> t \<in> set (pending_tasks x)" by auto
    then show ?thesis
    proof cases
      case 1
      with True Cons.prems(2) have "t' \<noteq> t" by auto
      with 1 have "t \<in> set (remove1 t' (pending_tasks d))" by simp
      with 1 show ?thesis by (simp add: ds')
    next
      case 2
      then show ?thesis by (auto simp: ds')
    qed
  next
    case False
    with Cons.prems(1) obtain ds0 where r: "remove_pending j t' ds = Inr ds0" and ds': "ds' = d # ds0"
      by (auto split: sum.splits)
    from Cons.prems(3) consider "agent_id d = i" "t \<in> set (pending_tasks d)"
      | "\<exists>x\<in>set ds. agent_id x = i \<and> t \<in> set (pending_tasks x)" by auto
    then show ?thesis
    proof cases
      case 1
      then show ?thesis by (simp add: ds')
    next
      case 2
      from Cons.IH [OF r Cons.prems(2) 2] show ?thesis by (auto simp: ds')
    qed
  qed
qed

lemma apply_allocations_keeps:
  "apply_allocations st al = Inr st1 \<Longrightarrow>
   \<forall>a\<in>set al. device_id (fst a) \<noteq> i \<or> task (fst a) \<noteq> t \<Longrightarrow>
   \<exists>d\<in>set (st_devices st). agent_id d = i \<and> t \<in> set (pending_tasks d) \<Longrightarrow>
     \<exists>d\<in>set (st_devices st1). agent_id d = i \<and> t \<in> set (pending_tasks d)"
proof (induction al arbitrary: st)
  case Nil
  then show ?case by simp
next
  case (Cons a al)
  from Cons.prems(1) obtain st0 where s0: "apply_allocation st a = Inr st0"
    and rest: "apply_allocations st0 al = Inr st1"
    by (auto split: sum.splits)
  obtain r w p where a: "a = (r, w, p)" by (cases a)
  from s0 obtain ds' where rp: "remove_pending (device_id r) (task r) (st_devices st) = Inr ds'"
    and ds': "st_devices st0 = ds'"
    by (auto simp: a apply_allocation_def Let_def split: option.splits sum.splits)
  have "device_id r \<noteq> i \<or> task r \<noteq> t" using Cons.prems(2) by (simp add: a)
  from remove_pending_keeps [OF rp this Cons.prems(3)]
  have "\<exists>d\<in>set (st_devices st0). agent_id d = i \<and> t \<in> set (pending_tasks d)"
    by (simp add: ds')
  moreover have "\<forall>a\<in>set al. device_id (fst a) \<noteq> i \<or> task (fst a) \<noteq> t"
    using Cons.prems(2) by simp
  ultimately show ?case using Cons.IH [OF rest] by blast
qed

lemma all_refuse_no_bids:
  assumes "\<forall>p\<in>set providers. cost_for_request p req G = Inr None"
  shows "collect_bids (enumerate 0 providers) req G = Inr []"
proof (rule collect_bids_all_refuse)
  show "\<forall>ip\<in>set (enumerate 0 providers). cost_for_request (snd ip) req G = Inr None"
    using assms by (auto simp: in_set_enumerate_eq)
qed

lemma clear_bids_request:
  "clear_bids r bids = Allocated (r', w, p) \<Longrightarrow> r' = r \<and> bids \<noteq> []"
  by (auto simp: clear_bids_cases split: if_splits)

text \<open>
  C6: in a round that completes, a request that every provider refuses gets an empty bid
  list without an error, is in the rejection list with the reason \<open>"no provider"\<close> and in
  no allocation; its task is still pending at its device after the round, and the next
  round, when it builds its requests, builds one for that task again.
\<close>

theorem no_bid_rejection:
  assumes round: "run_round sys draw = Inr (sys', m)"
    and reqs: "create_requests (network sys) (nodes sys) draw 0 (devices sys) = Inr (devs1, reqs)"
    and run: "Auctioneer_run reqs (nodes sys) (network sys) = Inr (allocations, rejections)"
    and req: "req \<in> set reqs"
    and refuse: "\<forall>p\<in>set (nodes sys). cost_for_request p req (network sys) = Inr None"
  shows "collect_bids (enumerate 0 (nodes sys)) req (network sys) = Inr []
    \<and> (req, ''no provider'') \<in> set rejections
    \<and> (\<forall>w price. (req, w, price) \<notin> set allocations)
    \<and> (\<exists>d\<in>set (devices sys'). agent_id d = device_id req \<and> task req \<in> set (pending_tasks d))
    \<and> (\<forall>draw' devs2 reqs2.
          create_requests (network sys') (nodes sys') draw' 0 (devices sys') = Inr (devs2, reqs2)
          \<longrightarrow> (\<exists>r\<in>set reqs2. device_id r = device_id req \<and> task r = task req))"
proof -
  let ?G = "network sys" and ?ps = "nodes sys"
  have nobids: "collect_bids (enumerate 0 ?ps) req ?G = Inr []"
    using refuse by (rule all_refuse_no_bids)
  have rej: "(req, ''no provider'') \<in> set rejections"
    using Auctioneer_run_rejections [OF run] req nobids clear_bids_Nil [of req] by auto
  have none: "device_id (fst a) \<noteq> device_id req \<or> task (fst a) \<noteq> task req"
    if a: "a \<in> set allocations" for a
  proof (rule ccontr)
    assume "\<not> ?thesis"
    then have same: "device_id (fst a) = device_id req" "task (fst a) = task req" by simp_all
    obtain r w p where a3: "a = (r, w, p)" by (cases a)
    from Auctioneer_run_allocations [OF run] a a3 obtain r' bids where
      cb: "collect_bids (enumerate 0 ?ps) r' ?G = Inr bids"
      and cl: "clear_bids r' bids = Allocated (r, w, p)"
      by auto
    from clear_bids_request [OF cl] have "r = r'" "bids \<noteq> []" by simp_all
    with cb have b: "collect_bids (enumerate 0 ?ps) r ?G = Inr bids" "bids \<noteq> []"
      by simp_all
    have "collect_bids (enumerate 0 ?ps) r ?G = collect_bids (enumerate 0 ?ps) req ?G"
      using same by (intro collect_bids_cong) (simp_all add: a3)
    with b nobids show False by simp
  qed
  have noalloc: "\<forall>w price. (req, w, price) \<notin> set allocations"
  proof (intro allI notI)
    fix w price
    assume "(req, w, price) \<in> set allocations"
    from none [OF this] show False by simp
  qed
  obtain devs0 reqs0 al0 rj0 st where
    c0: "create_requests (network sys) (nodes sys) draw 0 (devices sys) = Inr (devs0, reqs0)"
    and r0: "Auctioneer_run reqs0 (nodes sys) (network sys) = Inr (al0, rj0)"
    and app0: "apply_allocations \<lparr>st_nodes = nodes sys, st_devices = devs0,
        per_device_allocated = init_allocated devs0, welfare = 0\<rparr> al0 = Inr st"
    and sys': "sys' = sys\<lparr>nodes := st_nodes st, devices := st_devices st\<rparr>"
    by (rule run_round_Inr [OF round])
  from c0 reqs have e1: "devs0 = devs1" "reqs0 = reqs" by simp_all
  with r0 run have e2: "al0 = allocations" by simp
  have app: "apply_allocations \<lparr>st_nodes = nodes sys, st_devices = devs1,
        per_device_allocated = init_allocated devs1, welfare = 0\<rparr> allocations = Inr st"
    using app0 by (simp only: e1 e2)
  from create_requests_origin [OF reqs req]
  have before: "\<exists>d\<in>set devs1. agent_id d = device_id req \<and> task req \<in> set (pending_tasks d)" .
  have after: "\<exists>d\<in>set (devices sys'). agent_id d = device_id req \<and> task req \<in> set (pending_tasks d)"
    using apply_allocations_keeps [OF app, of "device_id req" "task req"] none before
    by (simp add: sys')
  have again: "\<forall>draw' devs2 reqs2.
      create_requests (network sys') (nodes sys') draw' 0 (devices sys') = Inr (devs2, reqs2)
      \<longrightarrow> (\<exists>r\<in>set reqs2. device_id r = device_id req \<and> task r = task req)"
  proof (intro allI impI)
    fix draw' devs2 reqs2
    assume c: "create_requests (network sys') (nodes sys') draw' 0 (devices sys') = Inr (devs2, reqs2)"
    from after obtain d where d: "d \<in> set (devices sys')" "agent_id d = device_id req"
      "task req \<in> set (pending_tasks d)" by blast
    from create_requests_covers [OF c d(1) d(3)] d(2)
    show "\<exists>r\<in>set reqs2. device_id r = device_id req \<and> task r = task req" by simp
  qed
  show ?thesis
    by (intro conjI) (rule nobids, rule rej, rule noalloc, rule after, rule again)
qed

lemmas ex_eval =
  generate_task_def build_requests_def build_request_def direct_latencies_def py_min_def
  utility_for_task_def has_edge_def edge_weight_def cost_for_request_def clear_bids_def
  enumerate_eq_zip apply_allocation_def init_allocated_def allocate_def new_IoTDevice_def
  new_EdgeNode_def ex_task_def Let_def

lemma ex_busy_create_requests:
  "create_requests (network ex_busy_system) (nodes ex_busy_system) (\<lambda>k. ex_task) 0
     (devices ex_busy_system) =
     Inr ([generate_task (new_IoTDevice 1 ''camera'') ex_task], [ex_busy_request])"
  by (simp add: ex_busy_system_def ex_busy_request_def ex_eval)

lemma ex_busy_refused:
  "\<forall>p\<in>set (nodes ex_busy_system).
     cost_for_request p ex_busy_request (network ex_busy_system) = Inr None"
  by (simp add: ex_busy_system_def ex_busy_request_def ex_eval)

lemma ex_busy_Auctioneer_run:
  "Auctioneer_run [ex_busy_request] (nodes ex_busy_system) (network ex_busy_system) =
     Inr ([], [(ex_busy_request, ''no provider'')])"
  by (simp add: ex_busy_system_def ex_busy_request_def ex_eval)

lemma ex_busy_run_round:
  "run_round ex_busy_system (\<lambda>k. ex_task) =
     Inr (ex_busy_system\<lparr>devices := [generate_task (new_IoTDevice 1 ''camera'') ex_task]\<rparr>,
          \<lparr>social_welfare = 0, allocation_eff = 0, fairness = 1\<rparr>)"
  unfolding run_round_def ex_busy_create_requests sum.case prod.case ex_busy_Auctioneer_run
  by (simp add: ex_busy_system_def ex_eval jain_index_def)

lemma ex_busy_next_round:
  "create_requests
     (network (ex_busy_system\<lparr>devices := [generate_task (new_IoTDevice 1 ''camera'') ex_task]\<rparr>))
     (nodes (ex_busy_system\<lparr>devices := [generate_task (new_IoTDevice 1 ''camera'') ex_task]\<rparr>))
     (\<lambda>k. ex_task) 0
     (devices (ex_busy_system\<lparr>devices := [generate_task (new_IoTDevice 1 ''camera'') ex_task]\<rparr>)) =
     Inr ([generate_task (generate_task (new_IoTDevice 1 ''camera'') ex_task) ex_task],
          [ex_busy_request, ex_busy_request])"
  by (simp add: ex_busy_system_def ex_busy_request_def ex_eval)

theorem no_bid_rejection_witness:
  "run_round ex_busy_system (\<lambda>k. ex_task) =
     Inr (ex_busy_system\<lparr>devices := [generate_task (new_IoTDevice 1 ''camera'') ex_task]\<rparr>,
          \<lparr>social_welfare = 0, allocation_eff = 0, fairness = 1\<rparr>)
   \<and> create_requests (network ex_busy_system) (nodes ex_busy_system) (\<lambda>k. ex_task) 0
       (devices ex_busy_system) =
       Inr ([generate_task (new_IoTDevice 1 ''camera'') ex_task], [ex_busy_request])
   \<and> Auctioneer_run [ex_busy_request] (nodes ex_busy_system) (network ex_busy_system) =
       Inr ([], [(ex_busy_request, ''no provider'')])
   \<and> cost_for_request (nodes ex_busy_system ! 0) ex_busy_request (network ex_busy_system) = Inr None
   \<and> length (nodes ex_busy_system) = 1
   \<and> (ex_busy_request, ''no provider'') \<in> set [(ex_busy_request, ''no provider'')]
   \<and> (\<exists>d\<in>set (devices (ex_busy_system\<lparr>devices :=
            [generate_task (new_IoTDevice 1 ''camera'') ex_task]\<rparr>)).
         agent_id d = device_id ex_busy_request \<and> task ex_busy_request \<in> set (pending_tasks d))
   \<and> (\<exists>r\<in>set [ex_busy_request, ex_busy_request].
         device_id r = device_id ex_busy_request \<and> task r = task ex_busy_request)"
proof -
  have h4: "ex_busy_request \<in> set [ex_busy_request]" by simp
  note t = no_bid_rejection [OF ex_busy_run_round ex_busy_create_requests
      ex_busy_Auctioneer_run h4 ex_busy_refused]
  from t have a: "(ex_busy_request, ''no provider'') \<in> set [(ex_busy_request, ''no provider'')]"
    by blast
  from t have b: "\<exists>d\<in>set (devices (ex_busy_system\<lparr>devices :=
            [generate_task (new_IoTDevice 1 ''camera'') ex_task]\<rparr>)).
         agent_id d = device_id ex_busy_request \<and> task ex_busy_request \<in> set (pending_tasks d)"
    by blast
  from t ex_busy_next_round
  have c: "\<exists>r\<in>set [ex_busy_request, ex_busy_request].
         device_id r = device_id ex_busy_request \<and> task r = task ex_busy_request"
    by blast
  have d: "cost_for_request (nodes ex_busy_system ! 0) ex_busy_request (network ex_busy_system)
      = Inr None" "length (nodes ex_busy_system) = 1"
    using ex_busy_refused by (simp_all add: ex_busy_system_def)
  show ?thesis
    by (intro conjI) (rule ex_busy_run_round, rule ex_busy_create_requests,
        rule ex_busy_Auctioneer_run, rule d(1), rule d(2), rule a, rule b, rule c)
qed

text \<open>
  C1 (the code at the failing input): a fresh system with one provider of capacity
  (21 cpu, 33 memory) and three camera devices linked to it; in the first round every
  device generates a task of 7.5 cpu and 12 memory. Every request is costed against the
  untouched provider, all three are allocated to it, and after the round its available
  cpu is \<open>-3/2\<close> and its available memory is \<open>-3\<close>: the capacity invariant is broken, and
  nothing is re-validated or turned into a rejection when the allocations are applied.
\<close>

theorem capacity_invariant_violated:
  "run_round ex_crowded_system (\<lambda>k. ex_task) =
     Inr (ex_crowded_system
            \<lparr>nodes := [(new_EdgeNode 0 21 33)
               \<lparr>available := \<lparr>of_cpu = - 3 / 2, of_memory = - 3\<rparr>\<rparr>]\<rparr>,
          \<lparr>social_welfare = 3 * (117 / 2 * exp (- (7 / 4)) - 1 / 10 - 47 / 20),
           allocation_eff = 1, fairness = 1\<rparr>)"
  by (simp add: run_round_def ex_crowded_system_def ex_eval jain_index_def)

section \<open>Shortest path lengths\<close>

lemma edge_weight_Some:
  assumes "edge_weight G u v = Some w"
  shows "(u, v, w) \<in> set (g_edges G) \<or> (v, u, w) \<in> set (g_edges G)"
proof -
  from assms obtain x where
    f: "find (\<lambda>(a, b, w). (a = u \<and> b = v) \<or> (a = v \<and> b = u)) (g_edges G) = Some x"
    and w: "w = (case x of (a, b, w) \<Rightarrow> w)"
    by (auto simp: edge_weight_def)
  obtain a b w' where x: "x = (a, b, w')" by (cases x)
  from f have "x \<in> set (g_edges G)" "(a = u \<and> b = v) \<or> (a = v \<and> b = u)"
    by (auto simp: find_Some_iff x in_set_conv_nth)
  with w x show ?thesis by auto
qed

lemma edge_weight_nodes:
  assumes "edge_weight G u v = Some w"
  shows "u \<in> set (node_list G) \<and> v \<in> set (node_list G)"
  using edge_weight_Some [OF assms] by (force simp: node_list_def)

lemma arcs_iff: "(a, b, w) \<in> set (arcs G) \<longleftrightarrow> edge_weight G a b = Some w"
proof
  assume "(a, b, w) \<in> set (arcs G)"
  then show "edge_weight G a b = Some w"
    by (auto simp: arcs_def split: option.splits)
next
  assume e: "edge_weight G a b = Some w"
  with edge_weight_nodes [OF e] show "(a, b, w) \<in> set (arcs G)"
    by (auto simp: arcs_def intro!: bexI [of _ a] bexI [of _ b])
qed

lemma edge_rel_arcs: "edge_rel G = (\<lambda>(a, b, w). (a, b)) ` set (arcs G)"
proof (rule set_eqI)
  fix e :: "int \<times> int"
  obtain a b where e: "e = (a, b)" by (cases e)
  have "e \<in> edge_rel G \<longleftrightarrow> (\<exists>w. (a, b, w) \<in> set (arcs G))"
    by (auto simp: e edge_rel_def has_edge_def arcs_iff)
  also have "\<dots> \<longleftrightarrow> e \<in> (\<lambda>(a, b, w). (a, b)) ` set (arcs G)"
    by (force simp: e image_iff)
  finally show "e \<in> edge_rel G \<longleftrightarrow> e \<in> (\<lambda>(a, b, w). (a, b)) ` set (arcs G)" .
qed

lemma finite_edge_rel: "finite (edge_rel G)"
  by (simp add: edge_rel_arcs)

lemma card_edge_rel: "card (edge_rel G) \<le> length (arcs G)"
proof -
  have "card (edge_rel G) \<le> card (set (arcs G))"
    unfolding edge_rel_arcs by (rule card_image_le) simp
  also have "\<dots> \<le> length (arcs G)" by (rule card_length)
  finally show ?thesis .
qed

lemma relax_mono: "d x \<noteq> None \<Longrightarrow> relax d e x \<noteq> None"
  by (cases e) (auto split: option.splits)

lemma foldl_relax_mono: "d x \<noteq> None \<Longrightarrow> foldl relax d es x \<noteq> None"
proof (induction es arbitrary: d)
  case Nil
  then show ?case by simp
next
  case (Cons e es)
  have "relax d e x \<noteq> None" using Cons.prems by (rule relax_mono)
  then have "foldl relax (relax d e) es x \<noteq> None" by (rule Cons.IH)
  then show ?case by simp
qed

lemma relax_target: "d a \<noteq> None \<Longrightarrow> relax d (a, b, w) b \<noteq> None"
  by (auto split: option.splits)

lemma relax_all_step:
  assumes "d a \<noteq> None" and "(a, b, w) \<in> set (arcs G)"
  shows "relax_all G d b \<noteq> None"
proof -
  from assms(2) obtain xs ys where xs: "arcs G = xs @ (a, b, w) # ys"
    by (auto dest: split_list)
  have "foldl relax d xs a \<noteq> None" using assms(1) by (rule foldl_relax_mono)
  then have "relax (foldl relax d xs) (a, b, w) b \<noteq> None" by (rule relax_target)
  then have "foldl relax (relax (foldl relax d xs) (a, b, w)) ys b \<noteq> None"
    by (rule foldl_relax_mono)
  then show ?thesis by (simp add: relax_all_def xs)
qed

lemma relax_all_mono: "d x \<noteq> None \<Longrightarrow> relax_all G d x \<noteq> None"
  unfolding relax_all_def by (rule foldl_relax_mono)

lemma funpow_relax_all_mono: "d x \<noteq> None \<Longrightarrow> ((relax_all G) ^^ n) d x \<noteq> None"
proof (induction n)
  case 0
  then show ?case by simp
next
  case (Suc n)
  have "relax_all G (((relax_all G) ^^ n) d) x \<noteq> None"
    using Suc.IH [OF Suc.prems] by (rule relax_all_mono)
  then show ?case by simp
qed

lemma relpow_reached:
  "(s, t) \<in> (edge_rel G) ^^ k \<Longrightarrow> d s \<noteq> None \<Longrightarrow> ((relax_all G) ^^ k) d t \<noteq> None"
proof (induction k arbitrary: t)
  case 0
  then show ?case by simp
next
  case (Suc k)
  from Suc.prems(1) obtain y where y: "(s, y) \<in> (edge_rel G) ^^ k" "(y, t) \<in> edge_rel G"
    by (auto elim: relpow_Suc_E)
  from y(2) obtain w where w: "(y, t, w) \<in> set (arcs G)"
    by (auto simp: edge_rel_arcs)
  from Suc.IH [OF y(1) Suc.prems(2)] have "((relax_all G) ^^ k) d y \<noteq> None" .
  then have "relax_all G (((relax_all G) ^^ k) d) t \<noteq> None"
    using w by (rule relax_all_step)
  then show ?case by simp
qed

lemma has_path_reached:
  assumes "has_path G s t"
  shows "distances G s t \<noteq> None"
proof -
  from assms have "(s, t) \<in> (\<Union>n\<in>{n. n \<le> card (edge_rel G)}. (edge_rel G) ^^ n)"
    unfolding has_path_def using rtrancl_finite_eq_relpow [OF finite_edge_rel] by simp
  then obtain k where k: "k \<le> card (edge_rel G)" "(s, t) \<in> (edge_rel G) ^^ k" by auto
  let ?d0 = "Map.empty(s \<mapsto> 0 :: real)"
  have "((relax_all G) ^^ k) ?d0 t \<noteq> None" using k(2) by (rule relpow_reached) simp
  then have "((relax_all G) ^^ (length (arcs G) - k)) (((relax_all G) ^^ k) ?d0) t \<noteq> None"
    by (rule funpow_relax_all_mono)
  moreover have "length (arcs G) = (length (arcs G) - k) + k"
    using k(1) card_edge_rel [of G] by simp
  ultimately show ?thesis
    unfolding distances_def by (metis funpow_add comp_apply)
qed

text \<open>
  Invariants of the relaxation: only nodes with a path from the source get a distance,
  and no distance is negative when no weight is.
\<close>

lemma relax_has_path:
  assumes "\<forall>x. d x \<noteq> None \<longrightarrow> has_path G s x" and "(a, b, w) \<in> set (arcs G)"
  shows "\<forall>x. relax d (a, b, w) x \<noteq> None \<longrightarrow> has_path G s x"
proof (intro allI impI)
  fix x
  assume r: "relax d (a, b, w) x \<noteq> None"
  show "has_path G s x"
  proof (cases "d x \<noteq> None")
    case True
    with assms(1) show ?thesis by simp
  next
    case False
    with r have "x = b" "d a \<noteq> None" by (auto split: option.splits if_splits)
    moreover have "(a, b) \<in> edge_rel G" using assms(2) by (force simp: edge_rel_arcs)
    ultimately show ?thesis using assms(1) unfolding has_path_def by (auto intro: rtrancl_into_rtrancl)
  qed
qed

lemma foldl_relax_has_path:
  "\<forall>x. d x \<noteq> None \<longrightarrow> has_path G s x \<Longrightarrow> set es \<subseteq> set (arcs G) \<Longrightarrow>
     \<forall>x. foldl relax d es x \<noteq> None \<longrightarrow> has_path G s x"
proof (induction es arbitrary: d)
  case Nil
  then show ?case by simp
next
  case (Cons e es)
  obtain a b w where e: "e = (a, b, w)" by (cases e)
  have "\<forall>x. relax d (a, b, w) x \<noteq> None \<longrightarrow> has_path G s x"
    using Cons.prems by (intro relax_has_path) (simp_all add: e)
  from Cons.IH [OF this] Cons.prems(2) show ?case by (simp add: e)
qed

lemma funpow_relax_all_has_path:
  "\<forall>x. d x \<noteq> None \<longrightarrow> has_path G s x \<Longrightarrow>
     \<forall>x. ((relax_all G) ^^ n) d x \<noteq> None \<longrightarrow> has_path G s x"
proof (induction n)
  case 0
  then show ?case by simp
next
  case (Suc n)
  from foldl_relax_has_path [OF Suc.IH [OF Suc.prems], of "arcs G"]
  show ?case by (simp add: relax_all_def)
qed

lemma distances_has_path: "distances G s t \<noteq> None \<longleftrightarrow> has_path G s t"
proof
  assume "distances G s t \<noteq> None"
  moreover have "\<forall>x. (Map.empty(s \<mapsto> 0 :: real)) x \<noteq> None \<longrightarrow> has_path G s x"
    by (simp add: has_path_def)
  ultimately show "has_path G s t"
    unfolding distances_def using funpow_relax_all_has_path by blast
next
  assume "has_path G s t"
  then show "distances G s t \<noteq> None" by (rule has_path_reached)
qed

lemma relax_nonneg:
  assumes "\<forall>x v. d x = Some v \<longrightarrow> 0 \<le> v" and "0 \<le> w"
  shows "\<forall>x v. relax d (a, b, w) x = Some v \<longrightarrow> 0 \<le> v"
  using assms by (auto split: option.splits if_splits)

lemma foldl_relax_nonneg:
  "\<forall>x v. d x = Some v \<longrightarrow> 0 \<le> v \<Longrightarrow> \<forall>e\<in>set es. 0 \<le> snd (snd e) \<Longrightarrow>
     \<forall>x v. foldl relax d es x = Some v \<longrightarrow> 0 \<le> v"
proof (induction es arbitrary: d)
  case Nil
  then show ?case by simp
next
  case (Cons e es)
  obtain a b w where e: "e = (a, b, w)" by (cases e)
  have "\<forall>x v. relax d (a, b, w) x = Some v \<longrightarrow> 0 \<le> v"
    using Cons.prems by (intro relax_nonneg) (simp_all add: e)
  from Cons.IH [OF this] Cons.prems(2) show ?case by (simp add: e)
qed

lemma arcs_nonneg:
  assumes "\<forall>e\<in>set (g_edges G). 0 \<le> snd (snd e)"
  shows "\<forall>e\<in>set (arcs G). 0 \<le> snd (snd e)"
proof
  fix e
  assume e: "e \<in> set (arcs G)"
  obtain a b w where abw: "e = (a, b, w)" by (cases e)
  from e have "edge_weight G a b = Some w" by (simp add: abw arcs_iff)
  from edge_weight_Some [OF this] assms show "0 \<le> snd (snd e)" by (auto simp: abw)
qed

lemma funpow_relax_all_nonneg:
  assumes "\<forall>e\<in>set (g_edges G). 0 \<le> snd (snd e)"
  shows "\<forall>x v. d x = Some v \<longrightarrow> 0 \<le> v \<Longrightarrow>
     \<forall>x v. ((relax_all G) ^^ n) d x = Some v \<longrightarrow> 0 \<le> v"
proof (induction n)
  case 0
  then show ?case by simp
next
  case (Suc n)
  from foldl_relax_nonneg [OF Suc.IH [OF Suc.prems] arcs_nonneg [OF assms]]
  show ?case by (simp add: relax_all_def)
qed

lemma distances_nonneg:
  assumes "\<forall>e\<in>set (g_edges G). 0 \<le> snd (snd e)" and "distances G s t = Some v"
  shows "0 \<le> v"
proof -
  have "\<forall>x v. (Map.empty(s \<mapsto> 0 :: real)) x = Some v \<longrightarrow> 0 \<le> v" by simp
  from funpow_relax_all_nonneg [OF assms(1) this, of "length (arcs G)"]
  have "\<forall>x v. distances G s x = Some v \<longrightarrow> 0 \<le> v"
    unfolding distances_def .
  with assms(2) show ?thesis by blast
qed

lemma has_edge_has_path: "has_edge G u v \<Longrightarrow> has_path G u v"
  by (auto simp: has_path_def edge_rel_def)

lemma walk_weight_simps:
  "walk_weight [] = 0"
  "walk_weight ((a, b, w) # es) = w + walk_weight es"
  "walk_weight (xs @ ys) = walk_weight xs + walk_weight ys"
  by (simp_all add: walk_weight_def)

lemma is_walk_append:
  "is_walk G u (xs @ ys) v \<longleftrightarrow> (\<exists>m. is_walk G u xs m \<and> is_walk G m ys v)"
proof (induction xs arbitrary: u)
  case Nil
  show ?case by simp
next
  case (Cons e xs)
  obtain a b w where e: "e = (a, b, w)" by (cases e)
  show ?case using Cons.IH [of b] by (auto simp: e)
qed

lemma is_walk_arcs: "is_walk G u es v \<Longrightarrow> set es \<subseteq> set (arcs G)"
proof (induction es arbitrary: u)
  case Nil
  show ?case by simp
next
  case (Cons e es)
  obtain a b w where e: "e = (a, b, w)" by (cases e)
  from Cons.prems have "edge_weight G a b = Some w" "is_walk G b es v" by (auto simp: e)
  with Cons.IH [of b] show ?case by (simp add: e arcs_iff)
qed

lemma walk_weight_nonneg:
  "\<forall>e\<in>set es. 0 \<le> snd (snd e) \<Longrightarrow> 0 \<le> walk_weight es"
  by (induction es) (auto simp: walk_weight_def)

text \<open>Every distance is the weight of a walk.\<close>

lemma relax_walk:
  assumes "\<forall>x v. d x = Some v \<longrightarrow> (\<exists>es. is_walk G s es x \<and> walk_weight es = v)"
    and "(a, b, w) \<in> set (arcs G)"
  shows "\<forall>x v. relax d (a, b, w) x = Some v \<longrightarrow> (\<exists>es. is_walk G s es x \<and> walk_weight es = v)"
proof (intro allI impI)
  fix x v
  assume r: "relax d (a, b, w) x = Some v"
  show "\<exists>es. is_walk G s es x \<and> walk_weight es = v"
  proof (cases "d x = Some v")
    case True
    with assms(1) show ?thesis by simp
  next
    case False
    with r obtain va where va: "d a = Some va" "x = b" "v = va + w"
      by (auto split: option.splits if_splits)
    from assms(1) va(1) obtain es where es: "is_walk G s es a" "walk_weight es = va" by blast
    have "edge_weight G a b = Some w" using assms(2) by (simp add: arcs_iff)
    then have "is_walk G s (es @ [(a, b, w)]) b" using es(1) by (auto simp: is_walk_append)
    moreover have "walk_weight (es @ [(a, b, w)]) = v"
      using es(2) va(3) by (simp add: walk_weight_simps)
    ultimately show ?thesis using va(2) by blast
  qed
qed

lemma foldl_relax_walk:
  "\<forall>x v. d x = Some v \<longrightarrow> (\<exists>es. is_walk G s es x \<and> walk_weight es = v) \<Longrightarrow>
   set as \<subseteq> set (arcs G) \<Longrightarrow>
     \<forall>x v. foldl relax d as x = Some v \<longrightarrow> (\<exists>es. is_walk G s es x \<and> walk_weight es = v)"
proof (induction as arbitrary: d)
  case Nil
  then show ?case by simp
next
  case (Cons e as)
  obtain a b w where e: "e = (a, b, w)" by (cases e)
  have "\<forall>x v. relax d (a, b, w) x = Some v \<longrightarrow> (\<exists>es. is_walk G s es x \<and> walk_weight es = v)"
    using Cons.prems by (intro relax_walk) (simp_all add: e)
  from Cons.IH [OF this] Cons.prems(2) show ?case by (simp add: e)
qed

lemma funpow_relax_all_walk:
  "\<forall>x v. d x = Some v \<longrightarrow> (\<exists>es. is_walk G s es x \<and> walk_weight es = v) \<Longrightarrow>
     \<forall>x v. ((relax_all G) ^^ n) d x = Some v \<longrightarrow> (\<exists>es. is_walk G s es x \<and> walk_weight es = v)"
proof (induction n)
  case 0
  then show ?case by simp
next
  case (Suc n)
  from foldl_relax_walk [OF Suc.IH [OF Suc.prems], of "arcs G"]
  show ?case by (simp add: relax_all_def)
qed

lemma distances_walk:
  assumes "distances G s t = Some v"
  shows "\<exists>es. is_walk G s es t \<and> walk_weight es = v"
proof -
  have "\<forall>x v. (Map.empty(s \<mapsto> 0 :: real)) x = Some v \<longrightarrow>
      (\<exists>es. is_walk G s es x \<and> walk_weight es = v)"
  proof (intro allI impI)
    fix x v
    assume "(Map.empty(s \<mapsto> 0 :: real)) x = Some v"
    then have "x = s" "v = 0" by (auto split: if_splits)
    then have "is_walk G s [] x \<and> walk_weight [] = v" by (simp add: walk_weight_simps)
    then show "\<exists>es. is_walk G s es x \<and> walk_weight es = v" by blast
  qed
  from funpow_relax_all_walk [OF this, of "length (arcs G)"]
  have "\<forall>x v. distances G s x = Some v \<longrightarrow> (\<exists>es. is_walk G s es x \<and> walk_weight es = v)"
    unfolding distances_def .
  with assms show ?thesis by blast
qed

text \<open>Relaxation never makes a distance worse.\<close>

lemma relax_improves:
  assumes "d x = Some v"
  shows "\<exists>v'. relax d e x = Some v' \<and> v' \<le> v"
proof -
  obtain a b w where e: "e = (a, b, w)" by (cases e)
  show ?thesis using assms by (auto simp: e split: option.splits)
qed

lemma foldl_relax_improves:
  "d x = Some v \<Longrightarrow> \<exists>v'. foldl relax d es x = Some v' \<and> v' \<le> v"
proof (induction es arbitrary: d v)
  case Nil
  then show ?case by simp
next
  case (Cons e es)
  have "\<exists>v'. relax d e x = Some v' \<and> v' \<le> v" using Cons.prems by (rule relax_improves)
  then obtain v1 where v1: "relax d e x = Some v1" "v1 \<le> v" by blast
  have "\<exists>v'. foldl relax (relax d e) es x = Some v' \<and> v' \<le> v1" using v1(1) by (rule Cons.IH)
  then obtain v2 where "foldl relax (relax d e) es x = Some v2" "v2 \<le> v1" by blast
  with v1(2) have "foldl relax d (e # es) x = Some v2 \<and> v2 \<le> v" by simp
  then show ?case by (rule exI)
qed

lemma relax_all_improves:
  "d x = Some v \<Longrightarrow> \<exists>v'. relax_all G d x = Some v' \<and> v' \<le> v"
  unfolding relax_all_def by (rule foldl_relax_improves)

lemma relax_all_arc:
  assumes "d a = Some va" and "(a, b, w) \<in> set (arcs G)"
  shows "\<exists>vb. relax_all G d b = Some vb \<and> vb \<le> va + w"
proof -
  from assms(2) obtain xs ys where xs: "arcs G = xs @ (a, b, w) # ys"
    by (auto dest: split_list)
  have "\<exists>v'. foldl relax d xs a = Some v' \<and> v' \<le> va"
    using assms(1) by (rule foldl_relax_improves)
  then obtain v1 where v1: "foldl relax d xs a = Some v1" "v1 \<le> va" by blast
  have "\<exists>v2. relax (foldl relax d xs) (a, b, w) b = Some v2 \<and> v2 \<le> v1 + w"
    using v1(1) by (auto split: option.splits)
  then obtain v2 where v2: "relax (foldl relax d xs) (a, b, w) b = Some v2" "v2 \<le> v1 + w"
    by blast
  have "\<exists>v'. foldl relax (relax (foldl relax d xs) (a, b, w)) ys b = Some v' \<and> v' \<le> v2"
    using v2(1) by (rule foldl_relax_improves)
  then obtain v3 where
    v3: "foldl relax (relax (foldl relax d xs) (a, b, w)) ys b = Some v3" "v3 \<le> v2" by blast
  have "relax_all G d b = Some v3" using v3(1) by (simp add: relax_all_def xs)
  moreover have "v3 \<le> va + w" using v3(2) v2(2) v1(2) by simp
  ultimately show ?thesis by blast
qed

lemma is_walk_snoc_cases:
  assumes "is_walk G s es t" and "es \<noteq> []"
  obtains es' y w where "es = es' @ [(y, t, w)]" "is_walk G s es' y" "edge_weight G y t = Some w"
proof -
  from assms(2) obtain es' e where es: "es = es' @ [e]" by (metis rev_exhaust)
  obtain y b w where e: "e = (y, b, w)" by (cases e)
  from assms(1) have "is_walk G s es' y" "edge_weight G y b = Some w" "b = t"
    by (auto simp: es e is_walk_append)
  with es e that show ?thesis by simp
qed

lemma bounded_walks_reached:
  assumes "d s = Some 0"
  shows "is_walk G s es t \<Longrightarrow> length es \<le> k \<Longrightarrow>
     \<exists>v. ((relax_all G) ^^ k) d t = Some v \<and> v \<le> walk_weight es"
proof (induction k arbitrary: es t)
  case 0
  then show ?case using assms by (simp add: walk_weight_simps)
next
  case (Suc k)
  show ?case
  proof (cases "es = []")
    case True
    with Suc.prems(1) have t: "t = s" by simp
    have "\<exists>v. ((relax_all G) ^^ k) d s = Some v \<and> v \<le> walk_weight []"
      by (rule Suc.IH) simp_all
    then obtain v0 where v0: "((relax_all G) ^^ k) d s = Some v0" "v0 \<le> 0"
      by (auto simp: walk_weight_simps)
    have "\<exists>v'. relax_all G (((relax_all G) ^^ k) d) s = Some v' \<and> v' \<le> v0"
      using v0(1) by (rule relax_all_improves)
    then obtain v' where "((relax_all G) ^^ Suc k) d s = Some v'" "v' \<le> v0" by auto
    with v0(2) have "((relax_all G) ^^ Suc k) d s = Some v' \<and> v' \<le> 0" by simp
    then show ?thesis unfolding True t walk_weight_simps by (rule exI)
  next
    case False
    from Suc.prems(1) False obtain es' y w where
      es: "es = es' @ [(y, t, w)]" and w': "is_walk G s es' y" and e: "edge_weight G y t = Some w"
      by (rule is_walk_snoc_cases)
    have "length es' \<le> k" using Suc.prems(2) by (simp add: es)
    with w' have "\<exists>v. ((relax_all G) ^^ k) d y = Some v \<and> v \<le> walk_weight es'"
      by (rule Suc.IH)
    then obtain vy where
      vy: "((relax_all G) ^^ k) d y = Some vy" "vy \<le> walk_weight es'" by blast
    have "(y, t, w) \<in> set (arcs G)" using e by (simp add: arcs_iff)
    with vy(1) have "\<exists>vb. relax_all G (((relax_all G) ^^ k) d) t = Some vb \<and> vb \<le> vy + w"
      by (rule relax_all_arc)
    then obtain vt where vt: "((relax_all G) ^^ Suc k) d t = Some vt" "vt \<le> vy + w" by auto
    have "walk_weight es = walk_weight es' + w" by (simp add: es walk_weight_simps)
    with vt(2) vy(2) have "vt \<le> walk_weight es" by simp
    with vt(1) show ?thesis by blast
  qed
qed

text \<open>With non-negative weights a walk can be shortened, cycle by cycle, to one with at
  most as many arcs as the graph has, without gaining weight.\<close>

lemma walk_shortcut:
  assumes nonneg: "\<forall>e\<in>set (g_edges G). 0 \<le> snd (snd e)"
  shows "is_walk G s es t \<Longrightarrow>
     \<exists>es'. is_walk G s es' t \<and> walk_weight es' \<le> walk_weight es \<and> length es' \<le> length (arcs G)"
proof (induction "length es" arbitrary: es rule: less_induct)
  case less
  show ?case
  proof (cases "distinct es")
    case True
    have "set es \<subseteq> set (arcs G)" using less.prems by (rule is_walk_arcs)
    then have "card (set es) \<le> card (set (arcs G))" by (intro card_mono) simp_all
    also have "\<dots> \<le> length (arcs G)" by (rule card_length)
    finally have "length es \<le> length (arcs G)" using True by (simp add: distinct_card)
    with less.prems show ?thesis by auto
  next
    case False
    then obtain xs ys zs e where es: "es = xs @ [e] @ ys @ [e] @ zs"
      using not_distinct_decomp by blast
    obtain a b w where e: "e = (a, b, w)" by (cases e)
    from less.prems have "is_walk G s (xs @ ((a, b, w) # (ys @ ((a, b, w) # zs)))) t"
      by (simp add: es e)
    then obtain m1 where p0: "is_walk G s xs m1" "is_walk G m1 ((a, b, w) # (ys @ ((a, b, w) # zs))) t"
      unfolding is_walk_append by blast
    from p0(2) have p1: "m1 = a" "edge_weight G a b = Some w"
      and rest: "is_walk G b (ys @ ((a, b, w) # zs)) t"
      by auto
    from rest obtain m3 where "is_walk G b ys m3" "is_walk G m3 ((a, b, w) # zs) t"
      unfolding is_walk_append by blast
    then have p3: "is_walk G b zs t" by simp
    let ?cut = "xs @ [(a, b, w)] @ zs"
    have "is_walk G a ((a, b, w) # zs) t" using p1(2) p3 by simp
    with p0(1) p1(1) have cut: "is_walk G s ?cut t"
      unfolding is_walk_append by auto
    have "set ys \<subseteq> set (arcs G)" using is_walk_arcs [OF less.prems] by (simp add: es)
    then have "\<forall>x\<in>set ys. 0 \<le> snd (snd x)" using arcs_nonneg [OF nonneg] by blast
    then have "0 \<le> walk_weight ys" by (rule walk_weight_nonneg)
    moreover have "(a, b, w) \<in> set (arcs G)" using p1(2) by (simp add: arcs_iff)
    then have "0 \<le> w" using arcs_nonneg [OF nonneg] by force
    ultimately have wt: "walk_weight ?cut \<le> walk_weight es"
      by (simp add: es e walk_weight_simps)
    have "length ?cut < length es" by (simp add: es)
    from less.hyps [OF this cut] obtain es' where
      "is_walk G s es' t" "walk_weight es' \<le> walk_weight ?cut" "length es' \<le> length (arcs G)"
      by blast
    with wt have "is_walk G s es' t \<and> walk_weight es' \<le> walk_weight es
        \<and> length es' \<le> length (arcs G)" by simp
    then show ?thesis by (rule exI)
  qed
qed

lemma distances_optimal:
  assumes nonneg: "\<forall>e\<in>set (g_edges G). 0 \<le> snd (snd e)"
    and walk: "is_walk G s es t"
  shows "\<exists>v. distances G s t = Some v \<and> v \<le> walk_weight es"
proof -
  from walk_shortcut [OF nonneg walk] obtain es' where
    es': "is_walk G s es' t" "walk_weight es' \<le> walk_weight es" "length es' \<le> length (arcs G)"
    by blast
  have "(Map.empty(s \<mapsto> 0 :: real)) s = Some 0" by simp
  then have "\<exists>v. ((relax_all G) ^^ (length (arcs G))) (Map.empty(s \<mapsto> 0 :: real)) t = Some v
      \<and> v \<le> walk_weight es'"
    using es'(1) es'(3) by (rule bounded_walks_reached)
  then obtain v where "distances G s t = Some v" "v \<le> walk_weight es'"
    unfolding distances_def by blast
  with es'(2) have "distances G s t = Some v \<and> v \<le> walk_weight es" by simp
  then show ?thesis by (rule exI)
qed

section \<open>The provider's cost\<close>

lemma shortest_path_length_cases:
  assumes "has_node G s"
  shows "shortest_path_length G s t =
     (case distances G s t of None \<Rightarrow> Inl NetworkXNoPath | Some d \<Rightarrow> Inr d)"
  using assms by (simp add: shortest_path_length_def)

lemma shortest_path_length_shortest:
  assumes "\<forall>e\<in>set (g_edges G). 0 \<le> snd (snd e)"
    and "shortest_path_length G s t = Inr d"
  shows "is_shortest_path_length G s t d"
proof -
  from assms(2) have d: "distances G s t = Some d"
    by (auto simp: shortest_path_length_def split: if_splits option.splits)
  have "\<exists>es. is_walk G s es t \<and> walk_weight es = d" using d by (rule distances_walk)
  moreover have "\<forall>es. is_walk G s es t \<longrightarrow> d \<le> walk_weight es"
  proof (intro allI impI)
    fix es
    assume "is_walk G s es t"
    with assms(1) have "\<exists>v. distances G s t = Some v \<and> v \<le> walk_weight es"
      by (rule distances_optimal)
    with d show "d \<le> walk_weight es" by simp
  qed
  ultimately show ?thesis unfolding is_shortest_path_length_def by (rule conjI)
qed

lemma cost_for_request_feasible:
  assumes "\<not> (cpu (task req) > of_cpu (available p) \<or> memory (task req) > of_memory (available p))"
    and "of_cpu (capacity p) \<noteq> 0"
  shows "cost_for_request p req G =
     (let cost2 = (cpu (task req) * of_cpu (base_price p) + memory (task req) * of_memory (base_price p))
            * (1 + (1 - of_cpu (available p) / of_cpu (capacity p)) ^ 2)
            + cpu (task req) * power_per_cpu p * energy_price p
      in if has_edge G (agent_id p) (device_id req)
         then Inr (Some (cost2 + the (edge_weight G (agent_id p) (device_id req)) * (1 / 10)))
         else (case shortest_path_length G (agent_id p) (device_id req) of
                 Inl NetworkXNoPath \<Rightarrow> Inr None
               | Inl e \<Rightarrow> Inl e
               | Inr delay \<Rightarrow> Inr (Some (cost2 + delay * (1 / 10)))))"
  using assms unfolding cost_for_request_def Let_def by simp

lemma cost_for_request_refuse_iff:
  assumes cap: "of_cpu (capacity p) \<noteq> 0"
    and np: "has_node G (agent_id p)"
  shows "cost_for_request p req G = Inr None \<longleftrightarrow>
     cpu (task req) > of_cpu (available p) \<or> memory (task req) > of_memory (available p)
     \<or> \<not> has_path G (agent_id p) (device_id req)"
proof (cases "cpu (task req) > of_cpu (available p) \<or> memory (task req) > of_memory (available p)")
  case True
  then show ?thesis unfolding cost_for_request_def Let_def by auto
next
  case False
  note feas = cost_for_request_feasible [OF False cap, of G]
  show ?thesis
  proof (cases "has_edge G (agent_id p) (device_id req)")
    case True
    then have "has_path G (agent_id p) (device_id req)" by (rule has_edge_has_path)
    with True False show ?thesis by (simp add: feas Let_def)
  next
    case noedge: False
    have sp: "shortest_path_length G (agent_id p) (device_id req) =
       (case distances G (agent_id p) (device_id req) of
          None \<Rightarrow> Inl NetworkXNoPath | Some d \<Rightarrow> Inr d)"
      using np by (rule shortest_path_length_cases)
    show ?thesis
    proof (cases "distances G (agent_id p) (device_id req)")
      case None
      then have "\<not> has_path G (agent_id p) (device_id req)"
        using distances_has_path [of G "agent_id p" "device_id req"] by simp
      with None noedge show ?thesis by (simp add: feas Let_def sp)
    next
      case (Some d)
      then have "has_path G (agent_id p) (device_id req)"
        using distances_has_path [of G "agent_id p" "device_id req"] by simp
      with Some noedge False show ?thesis by (simp add: feas Let_def sp)
    qed
  qed
qed

lemma cost_for_request_value:
  assumes cap: "of_cpu (capacity p) \<noteq> 0"
    and np: "has_node G (agent_id p)"
    and bid: "cost_for_request p req G \<noteq> Inr None"
  shows "\<exists>dist. cost_for_request p req G =
       Inr (Some ((cpu (task req) * of_cpu (base_price p) + memory (task req) * of_memory (base_price p))
            * (1 + (1 - of_cpu (available p) / of_cpu (capacity p)) ^ 2)
            + cpu (task req) * power_per_cpu p * energy_price p
            + dist * (1 / 10)))
     \<and> (if has_edge G (agent_id p) (device_id req)
        then edge_weight G (agent_id p) (device_id req) = Some dist
        else shortest_path_length G (agent_id p) (device_id req) = Inr dist)"
proof -
  from bid cost_for_request_refuse_iff [OF cap np] have
    False: "\<not> (cpu (task req) > of_cpu (available p) \<or> memory (task req) > of_memory (available p))"
    and path: "has_path G (agent_id p) (device_id req)"
    by auto
  note feas = cost_for_request_feasible [OF False cap, of G]
  show ?thesis
  proof (cases "has_edge G (agent_id p) (device_id req)")
    case True
    then obtain w where w: "edge_weight G (agent_id p) (device_id req) = Some w"
      by (auto simp: has_edge_def)
    with True show ?thesis by (intro exI [of _ w]) (simp add: feas Let_def)
  next
    case noedge: False
    from path obtain d where d: "distances G (agent_id p) (device_id req) = Some d"
      using distances_has_path [of G "agent_id p" "device_id req"] by auto
    have sp: "shortest_path_length G (agent_id p) (device_id req) = Inr d"
      using np d by (simp add: shortest_path_length_cases)
    with noedge show ?thesis by (intro exI [of _ d]) (simp add: feas Let_def)
  qed
qed

lemma cost_for_request_nonneg:
  assumes pos: "0 < cpu (task req)" "0 < memory (task req)"
    and w: "\<forall>e\<in>set (g_edges G). 0 \<le> snd (snd e)"
    and prices: "0 \<le> of_cpu (base_price p)" "0 \<le> of_memory (base_price p)"
      "0 \<le> energy_price p" "0 \<le> power_per_cpu p"
    and c: "cost_for_request p req G = Inr (Some c)"
  shows "0 \<le> c"
proof -
  define cost2 where "cost2 =
      (cpu (task req) * of_cpu (base_price p) + memory (task req) * of_memory (base_price p))
        * (1 + (1 - of_cpu (available p) / of_cpu (capacity p)) ^ 2)
        + cpu (task req) * power_per_cpu p * energy_price p"
  have "0 \<le> cpu (task req) * of_cpu (base_price p) + memory (task req) * of_memory (base_price p)"
    using pos prices by simp
  moreover have "0 \<le> 1 + (1 - of_cpu (available p) / of_cpu (capacity p)) ^ 2" by simp
  ultimately have "0 \<le> (cpu (task req) * of_cpu (base_price p)
      + memory (task req) * of_memory (base_price p))
        * (1 + (1 - of_cpu (available p) / of_cpu (capacity p)) ^ 2)"
    by (rule mult_nonneg_nonneg)
  moreover have "0 \<le> cpu (task req) * power_per_cpu p * energy_price p"
    using pos prices by simp
  ultimately have c2: "0 \<le> cost2" unfolding cost2_def by simp
  from c have feasible:
    "\<not> (cpu (task req) > of_cpu (available p) \<or> memory (task req) > of_memory (available p))"
    "of_cpu (capacity p) \<noteq> 0"
    unfolding cost_for_request_def Let_def by (auto split: if_splits)
  note feas = cost_for_request_feasible [OF feasible, of G, folded cost2_def]
  show ?thesis
  proof (cases "has_edge G (agent_id p) (device_id req)")
    case True
    then obtain x where x: "edge_weight G (agent_id p) (device_id req) = Some x"
      by (auto simp: has_edge_def)
    from edge_weight_Some [OF x] w have "0 \<le> x" by force
    moreover from c True x have "c = cost2 + x * (1 / 10)" by (simp add: feas Let_def)
    ultimately show ?thesis using c2 by simp
  next
    case False
    with c obtain d where d: "shortest_path_length G (agent_id p) (device_id req) = Inr d"
      and cd: "c = cost2 + d * (1 / 10)"
      by (auto simp: feas Let_def split: sum.splits py_error.splits)
    from d have "distances G (agent_id p) (device_id req) = Some d"
      by (auto simp: shortest_path_length_def split: if_splits option.splits)
    with w have "0 \<le> d" by (rule distances_nonneg)
    with cd c2 show ?thesis by simp
  qed
qed

text \<open>
  C5: for a provider with nonzero cpu capacity that is a node of the topology (the
  consumer need not be one), \<open>cost_for_request\<close> refuses exactly when the cpu demand
  exceeds the available cpu, or the memory demand exceeds the available memory, or no path
  connects provider and consumer; otherwise it returns
  \<open>base \<cdot> (1 + load\<^sup>2) + cpu \<cdot> power_per_cpu \<cdot> energy_price + distance \<cdot> 0.1\<close> with
  \<open>base = cpu \<cdot> base_price_cpu + memory \<cdot> base_price_memory\<close> and
  \<open>load = 1 - available.cpu / capacity.cpu\<close>, where the distance is the weight of the direct
  edge when there is one and the result of the shortest-path query otherwise; with
  non-negative edge weights that result is the least weight of a walk between the two,
  and with positive demands and non-negative prices the returned cost is not negative.
\<close>

theorem cost_model:
  assumes cap: "of_cpu (capacity p) \<noteq> 0"
    and np: "has_node G (agent_id p)"
  shows "(cost_for_request p req G = Inr None \<longleftrightarrow>
        cpu (task req) > of_cpu (available p) \<or> memory (task req) > of_memory (available p)
        \<or> \<not> has_path G (agent_id p) (device_id req))
    \<and> (cost_for_request p req G \<noteq> Inr None \<longrightarrow>
        (\<exists>dist. cost_for_request p req G =
           Inr (Some ((cpu (task req) * of_cpu (base_price p)
                        + memory (task req) * of_memory (base_price p))
                  * (1 + (1 - of_cpu (available p) / of_cpu (capacity p)) ^ 2)
                  + cpu (task req) * power_per_cpu p * energy_price p
                  + dist * (1 / 10)))
         \<and> (if has_edge G (agent_id p) (device_id req)
            then edge_weight G (agent_id p) (device_id req) = Some dist
            else shortest_path_length G (agent_id p) (device_id req) = Inr dist)))
    \<and> ((\<forall>e\<in>set (g_edges G). 0 \<le> snd (snd e)) \<longrightarrow>
        (\<forall>d. shortest_path_length G (agent_id p) (device_id req) = Inr d \<longrightarrow>
           is_shortest_path_length G (agent_id p) (device_id req) d)
        \<and> (0 < cpu (task req) \<and> 0 < memory (task req)
           \<and> 0 \<le> of_cpu (base_price p) \<and> 0 \<le> of_memory (base_price p)
           \<and> 0 \<le> energy_price p \<and> 0 \<le> power_per_cpu p \<longrightarrow>
           (\<forall>c. cost_for_request p req G = Inr (Some c) \<longrightarrow> 0 \<le> c)))"
proof (intro conjI impI allI)
  show "cost_for_request p req G = Inr None \<longleftrightarrow>
        cpu (task req) > of_cpu (available p) \<or> memory (task req) > of_memory (available p)
        \<or> \<not> has_path G (agent_id p) (device_id req)"
    using cap np by (rule cost_for_request_refuse_iff)
next
  assume "cost_for_request p req G \<noteq> Inr None"
  with cap np show "\<exists>dist. cost_for_request p req G =
           Inr (Some ((cpu (task req) * of_cpu (base_price p)
                        + memory (task req) * of_memory (base_price p))
                  * (1 + (1 - of_cpu (available p) / of_cpu (capacity p)) ^ 2)
                  + cpu (task req) * power_per_cpu p * energy_price p
                  + dist * (1 / 10)))
         \<and> (if has_edge G (agent_id p) (device_id req)
            then edge_weight G (agent_id p) (device_id req) = Some dist
            else shortest_path_length G (agent_id p) (device_id req) = Inr dist)"
    by (rule cost_for_request_value)
next
  fix d
  assume "\<forall>e\<in>set (g_edges G). 0 \<le> snd (snd e)"
    and "shortest_path_length G (agent_id p) (device_id req) = Inr d"
  then show "is_shortest_path_length G (agent_id p) (device_id req) d"
    by (rule shortest_path_length_shortest)
next
  fix c
  assume w: "\<forall>e\<in>set (g_edges G). 0 \<le> snd (snd e)"
    and pos: "0 < cpu (task req) \<and> 0 < memory (task req)
           \<and> 0 \<le> of_cpu (base_price p) \<and> 0 \<le> of_memory (base_price p)
           \<and> 0 \<le> energy_price p \<and> 0 \<le> power_per_cpu p"
    and c: "cost_for_request p req G = Inr (Some c)"
  from pos w c show "0 \<le> c"
    by (intro cost_for_request_nonneg [of req G p c]) simp_all
qed

lemma ex_far_shortest_path_length: "shortest_path_length ex_far_graph 0 4 = Inr 4"
  by (simp add: ex_far_graph_def shortest_path_length_def has_node_def node_list_def
      distances_def arcs_def edge_weight_def relax_all_def numeral_eq_Suc)

lemma ex_far_cost:
  "cost_for_request (new_EdgeNode 0 21 33) ex_far_request ex_far_graph = Inr (Some (53 / 20))"
proof -
  have "\<not> has_edge ex_far_graph 0 4"
    by (simp add: ex_far_graph_def has_edge_def edge_weight_def)
  then show ?thesis
    by (simp add: cost_for_request_def new_EdgeNode_def ex_far_request_def ex_task_def
        ex_far_shortest_path_length)
qed

lemma ex_absent_cost:
  "cost_for_request (new_EdgeNode 0 21 33) (ex_far_request\<lparr>device_id := 9\<rparr>) ex_far_graph =
     Inr None"
proof -
  have "\<not> has_edge ex_far_graph 0 9"
    by (simp add: ex_far_graph_def has_edge_def edge_weight_def)
  moreover have "shortest_path_length ex_far_graph 0 9 = Inl NetworkXNoPath"
    by (simp add: ex_far_graph_def shortest_path_length_def has_node_def node_list_def
        distances_def arcs_def edge_weight_def relax_all_def numeral_eq_Suc)
  ultimately show ?thesis
    by (simp add: cost_for_request_def new_EdgeNode_def ex_far_request_def ex_task_def)
qed

theorem cost_model_witness:
  "of_cpu (capacity (new_EdgeNode 0 21 33)) \<noteq> 0
   \<and> has_node ex_far_graph (agent_id (new_EdgeNode 0 21 33))
   \<and> list_all (\<lambda>e. 0 \<le> snd (snd e)) (g_edges ex_far_graph)
   \<and> \<not> has_edge ex_far_graph 0 4
   \<and> cost_for_request (new_EdgeNode 0 21 33) ex_far_request ex_far_graph = Inr (Some (53 / 20))
   \<and> shortest_path_length ex_far_graph 0 4 = Inr 4
   \<and> has_path ex_far_graph 0 4
   \<and> is_shortest_path_length ex_far_graph 0 4 4
   \<and> (0 :: real) \<le> 53 / 20
   \<and> \<not> has_node ex_far_graph 9
   \<and> cost_for_request (new_EdgeNode 0 21 33) (ex_far_request\<lparr>device_id := 9\<rparr>) ex_far_graph =
       Inr None
   \<and> \<not> has_path ex_far_graph 0 9"
proof -
  let ?p = "new_EdgeNode 0 21 33"
  have cap: "of_cpu (capacity ?p) \<noteq> 0" by (simp add: new_EdgeNode_def)
  have np: "has_node ex_far_graph (agent_id ?p)"
    by (simp add: new_EdgeNode_def ex_far_graph_def has_node_def node_list_def)
  have w: "\<forall>e\<in>set (g_edges ex_far_graph). 0 \<le> snd (snd e)"
    by (simp add: ex_far_graph_def)
  have ids: "agent_id ?p = 0" "device_id ex_far_request = 4"
    "device_id (ex_far_request\<lparr>device_id := 9\<rparr>) = 9"
    "task (ex_far_request\<lparr>device_id := 9\<rparr>) = task ex_far_request"
    by (simp_all add: new_EdgeNode_def ex_far_request_def)
  have noedge: "\<not> has_edge ex_far_graph 0 4"
    by (simp add: ex_far_graph_def has_edge_def edge_weight_def)
  have absent: "\<not> has_node ex_far_graph 9"
    by (simp add: ex_far_graph_def has_node_def node_list_def)
  have feasible: "\<not> of_cpu (available ?p) < cpu (task ex_far_request)"
    "\<not> of_memory (available ?p) < memory (task ex_far_request)"
    by (simp_all add: new_EdgeNode_def ex_far_request_def ex_task_def)
  note t = cost_model [OF cap np, of ex_far_request, unfolded ids]
  from t ex_far_cost have path: "has_path ex_far_graph 0 4" by auto
  from t w ex_far_shortest_path_length
  have short: "is_shortest_path_length ex_far_graph 0 4 4" by blast
  note t9 = cost_model [OF cap np, of "ex_far_request\<lparr>device_id := 9\<rparr>", unfolded ids]
  from t9 ex_absent_cost feasible have nopath: "\<not> has_path ex_far_graph 0 9" by blast
  show ?thesis
    using cap np w noedge ex_far_cost ex_far_shortest_path_length path short absent
      ex_absent_cost nopath
    by (simp add: list_all_iff)
qed

end
